theory Spec2Isabelle
  imports Main "HOL-Library.Sublist" "HOL-Library.Multiset"
begin

section \<open>The DSDL compiler of libuavcan (dsdlc.py)\<close>

text \<open>
  A shallow embedding of \<^verbatim>\<open>libuavcan/dsdl_compiler/dsdlc.py\<close>. Names, identifiers and
  type descriptors are \<^typ>\<open>string\<close>; the rendered source text, on which the line
  operations of Python's \<^verbatim>\<open>str\<close> act, is a list of Unicode code points.
\<close>

subsection \<open>Strings of Python\<close>

text \<open>
  \<^verbatim>\<open>s.replace(old, new)\<close>: the occurrences of \<^verbatim>\<open>old\<close> are found from left to right and
  do not overlap. With an empty \<^verbatim>\<open>old\<close>, \<^verbatim>\<open>new\<close> is put before every character and at
  the end.
\<close>

fun replace_ne :: "'a list \<Rightarrow> 'a list \<Rightarrow> 'a list \<Rightarrow> 'a list" where
  "replace_ne old new [] = []"
| "replace_ne old new (c # s) =
     (if prefix old (c # s) then new @ replace_ne old new (drop (length old - 1) s)
      else c # replace_ne old new s)"

definition replace :: "'a list \<Rightarrow> 'a list \<Rightarrow> 'a list \<Rightarrow> 'a list" where
  "replace old new s =
     (if old = [] then new @ concat (map (\<lambda>c. c # new) s) else replace_ne old new s)"

text \<open>\<^verbatim>\<open>s.split(sep)\<close> for a separator of one character: never an empty list.\<close>

fun split :: "'a \<Rightarrow> 'a list \<Rightarrow> 'a list list" where
  "split sep [] = [[]]"
| "split sep (c # s) =
     (if c = sep then [] # split sep s
      else (case split sep s of [] \<Rightarrow> [[c]] | w # ws \<Rightarrow> (c # w) # ws))"

text \<open>\<^verbatim>\<open>sep.join(xs)\<close>.\<close>

fun join :: "'a list \<Rightarrow> 'a list list \<Rightarrow> 'a list" where
  "join sep [] = []"
| "join sep [x] = x"
| "join sep (x # y # xs) = x @ sep @ join sep (y # xs)"

text \<open>\<^verbatim>\<open>'%d' % n\<close>: the decimal numeral of an integer.\<close>

definition digit_char :: "nat \<Rightarrow> char" where
  "digit_char d = ''0123456789'' ! d"

function string_of_nat :: "nat \<Rightarrow> string" where
  "string_of_nat n =
     (if n < 10 then [digit_char n] else string_of_nat (n div 10) @ [digit_char (n mod 10)])"
  by pat_completeness auto
termination
  by (relation "measure id") auto

declare string_of_nat.simps [simp del]

definition string_of_int :: "int \<Rightarrow> string" where
  "string_of_int i = (if i < 0 then ''-'' @ string_of_nat (nat (- i)) else string_of_nat (nat i))"

subsection \<open>The type graph handed over by the parser\<close>

text \<open>
  Modelled from the spec: the classes of \<^verbatim>\<open>pyuavcan.dsdl\<close>, which are not among the
  sources. A type occurrence has a category; a category outside the three known ones
  is kept with its printed form. A compound occurrence is identified by its full name.
\<close>

datatype type_category = CATEGORY_PRIMITIVE | CATEGORY_ARRAY | CATEGORY_COMPOUND | CATEGORY_OTHER string

datatype kind = KIND_BOOLEAN | KIND_UNSIGNED_INT | KIND_SIGNED_INT | KIND_FLOAT

datatype cast_mode = CAST_MODE_SATURATED | CAST_MODE_TRUNCATED

datatype array_mode = MODE_STATIC | MODE_DYNAMIC

record primitive_type =
  kind :: kind
  bitlen :: int
  cast_mode :: cast_mode

datatype dsdl_type =
    PrimitiveType primitive_type
  | ArrayType (value_type: dsdl_type) (mode: array_mode) (max_size: int)
  | CompoundType (type_full_name: string)
  | OtherType string

fun category :: "dsdl_type \<Rightarrow> type_category" where
  "category (PrimitiveType p) = CATEGORY_PRIMITIVE"
| "category (ArrayType v m n) = CATEGORY_ARRAY"
| "category (CompoundType n) = CATEGORY_COMPOUND"
| "category (OtherType c) = CATEGORY_OTHER c"

record attribute =
  name :: string
  type :: dsdl_type

record dsdl_constant =
  const_name :: string
  const_type :: primitive_type
  string_value :: string
  "value" :: int

datatype compound_kind = KIND_MESSAGE | KIND_SERVICE

record compound_type =
  full_name :: string
  compound_kind :: compound_kind
  t_fields :: "attribute list"
  constants :: "dsdl_constant list"
  request_fields :: "attribute list"
  request_constants :: "dsdl_constant list"
  response_fields :: "attribute list"
  response_constants :: "dsdl_constant list"
  default_dtid :: "int option"

subsection \<open>Errors\<close>

datatype error =
    DsdlCompilerException string
  | ValueError string
  | AssertionError
  | KeyError

subsection \<open>Constants of the module\<close>

definition MAX_BITLEN_FOR_ENUM :: int where
  "MAX_BITLEN_FOR_ENUM = 31"

definition CPP_HEADER_EXTENSION :: string where
  "CPP_HEADER_EXTENSION = ''hpp''"

subsection \<open>type_to_cpp_type\<close>

fun cast_mode_cpp :: "cast_mode \<Rightarrow> string" where
  "cast_mode_cpp CAST_MODE_SATURATED = ''::uavcan::CastModeSaturate''"
| "cast_mode_cpp CAST_MODE_TRUNCATED = ''::uavcan::CastModeTruncate''"

text \<open>The table of signedness has no entry for floats: a lookup there is a KeyError.\<close>

fun signedness_cpp :: "kind \<Rightarrow> string option" where
  "signedness_cpp KIND_BOOLEAN = Some ''::uavcan::SignednessUnsigned''"
| "signedness_cpp KIND_UNSIGNED_INT = Some ''::uavcan::SignednessUnsigned''"
| "signedness_cpp KIND_SIGNED_INT = Some ''::uavcan::SignednessSigned''"
| "signedness_cpp KIND_FLOAT = None"

fun array_mode_cpp :: "array_mode \<Rightarrow> string" where
  "array_mode_cpp MODE_STATIC = ''::uavcan::ArrayModeStatic''"
| "array_mode_cpp MODE_DYNAMIC = ''::uavcan::ArrayModeDynamic''"

fun type_to_cpp_type :: "dsdl_type \<Rightarrow> error + string" where
  "type_to_cpp_type (PrimitiveType p) =
     (if kind p = KIND_FLOAT
      then Inr (''::uavcan::FloatSpec<'' @ string_of_int (bitlen p) @ '', ''
                @ cast_mode_cpp (cast_mode p) @ ''>'')
      else (case signedness_cpp (kind p) of
              None \<Rightarrow> Inl KeyError
            | Some signedness \<Rightarrow>
                Inr (''::uavcan::IntegerSpec<'' @ string_of_int (bitlen p) @ '', ''
                     @ signedness @ '', '' @ cast_mode_cpp (cast_mode p) @ ''>'')))"
| "type_to_cpp_type (ArrayType v m n) =
     (case type_to_cpp_type v of
        Inl e \<Rightarrow> Inl e
      | Inr vt \<Rightarrow>
          Inr (''::uavcan::Array<'' @ vt @ '', '' @ array_mode_cpp m @ '', ''
               @ string_of_int n @ ''>''))"
| "type_to_cpp_type (CompoundType n) = Inr (''::'' @ replace ''.'' ''::'' n)"
| "type_to_cpp_type (OtherType c) = Inl (DsdlCompilerException (''Unknown type category: '' @ c))"

subsection \<open>The operating system's path module\<close>

text \<open>
  \<^verbatim>\<open>os.path\<close> is a parameter of the model: its separator \<^verbatim>\<open>os.path.sep\<close> and the
  functions \<^verbatim>\<open>os.path.join\<close> (of two arguments) and \<^verbatim>\<open>os.path.abspath\<close>.
\<close>

record os_path =
  sep :: string
  path_join :: "string \<Rightarrow> string \<Rightarrow> string"
  abspath :: "string \<Rightarrow> string"

text \<open>
  The POSIX instance, with the working directory as a parameter.
  \<^verbatim>\<open>posixpath.join(a, b)\<close> is \<^verbatim>\<open>b\<close> when \<^verbatim>\<open>b\<close> is absolute, and otherwise \<^verbatim>\<open>a\<close> and
  \<^verbatim>\<open>b\<close> with one slash between them unless \<^verbatim>\<open>a\<close> is empty or ends with one.
  \<^verbatim>\<open>posixpath.normpath\<close> drops empty and \<^verbatim>\<open>.\<close> components and resolves \<^verbatim>\<open>..\<close> against the
  component before it; exactly two leading slashes are kept.
\<close>

definition posix_join :: "string \<Rightarrow> string \<Rightarrow> string" where
  "posix_join a b =
     (if prefix ''/'' b then b
      else if a = [] \<or> suffix ''/'' a then a @ b
      else a @ ''/'' @ b)"

definition normpath_step :: "nat \<Rightarrow> string list \<Rightarrow> string \<Rightarrow> string list" where
  "normpath_step initial_slashes new_comps component =
     (if component = [] \<or> component = ''.'' then new_comps
      else if component \<noteq> ''..'' \<or> (initial_slashes = 0 \<and> new_comps = [])
              \<or> (new_comps \<noteq> [] \<and> last new_comps = ''..'')
      then new_comps @ [component]
      else if new_comps \<noteq> [] then butlast new_comps
      else new_comps)"

definition posix_normpath :: "string \<Rightarrow> string" where
  "posix_normpath path =
     (if path = [] then ''.''
      else
        let initial_slashes =
              (if prefix ''/'' path
               then (if prefix ''//'' path \<and> \<not> prefix ''///'' path then 2 else 1)
               else 0);
            comps = foldl (normpath_step initial_slashes) [] (split (CHR ''/'') path);
            p = replicate initial_slashes (CHR ''/'') @ join ''/'' comps
        in if p = [] then ''.'' else p)"

definition posix_abspath :: "string \<Rightarrow> string \<Rightarrow> string" where
  "posix_abspath cwd path =
     posix_normpath (if prefix ''/'' path then path else posix_join cwd path)"

definition posix :: "string \<Rightarrow> os_path" where
  "posix cwd = \<lparr> sep = ''/'', path_join = posix_join, abspath = posix_abspath cwd \<rparr>"

subsection \<open>type_output_filename\<close>

definition type_output_filename :: "os_path \<Rightarrow> dsdl_type \<Rightarrow> error + string" where
  "type_output_filename os t =
     (if category t \<noteq> CATEGORY_COMPOUND then Inl AssertionError
      else Inr (replace ''.'' (sep os) (type_full_name t) @ ''.'' @ CPP_HEADER_EXTENSION))"

subsection \<open>generate_one_type: dependencies\<close>

text \<open>Evaluating a comprehension: the first exception ends it.\<close>

fun collect :: "(error + 'a) list \<Rightarrow> error + 'a list" where
  "collect [] = Inr []"
| "collect (r # rs) =
     (case r of
        Inl e \<Rightarrow> Inl e
      | Inr x \<Rightarrow> (case collect rs of Inl e \<Rightarrow> Inl e | Inr xs \<Rightarrow> Inr (x # xs)))"

definition fields_includes :: "os_path \<Rightarrow> attribute list \<Rightarrow> error + string set" where
  "fields_includes os fs =
     (case collect (map (\<lambda>x. type_output_filename os (type x))
                        (filter (\<lambda>x. category (type x) = CATEGORY_COMPOUND) fs)) of
        Inl e \<Rightarrow> Inl e
      | Inr names \<Rightarrow> Inr (set names))"

subsection \<open>generate_one_type: attribute types\<close>

definition inject_cpp_types :: "dsdl_type list \<Rightarrow> error + string list" where
  "inject_cpp_types ts = collect (map type_to_cpp_type ts)"

subsection \<open>generate_one_type: constant properties\<close>

text \<open>
  Python's \<^verbatim>\<open>float(s)\<close> on a string, as far as it accepts or raises ValueError: white
  space around the literal is dropped, a sign may follow, then \<^verbatim>\<open>inf\<close>, \<^verbatim>\<open>infinity\<close> or
  \<^verbatim>\<open>nan\<close> in any case, or a decimal number with an optional exponent, whose digits may
  be grouped by single underscores.
\<close>

definition float_space :: "char \<Rightarrow> bool" where
  "float_space c = (c \<in> set [CHR 0x09, CHR 0x0A, CHR 0x0B, CHR 0x0C, CHR 0x0D, CHR 0x20,
                                CHR 0x85, CHR 0xA0])"

definition is_digit :: "char \<Rightarrow> bool" where
  "is_digit c = (c \<in> set ''0123456789'')"

definition lower :: "char \<Rightarrow> char" where
  "lower c =
     (case map_of (zip ''ABCDEFGHIJKLMNOPQRSTUVWXYZ'' ''abcdefghijklmnopqrstuvwxyz'') c of
        Some l \<Rightarrow> l
      | None \<Rightarrow> c)"

fun digitpart :: "string \<Rightarrow> bool" where
  "digitpart [] = False"
| "digitpart [c] = is_digit c"
| "digitpart (c # d # s) =
     (is_digit c \<and> (if d = CHR ''_'' then digitpart s else digitpart (d # s)))"

definition number :: "string \<Rightarrow> bool" where
  "number s =
     (let a = takeWhile (\<lambda>c. c \<noteq> CHR ''.'') s; b = dropWhile (\<lambda>c. c \<noteq> CHR ''.'') s
      in case b of
           [] \<Rightarrow> digitpart a
         | dot # frac \<Rightarrow>
             (if frac = [] then digitpart a else (a = [] \<or> digitpart a) \<and> digitpart frac))"

definition exponent :: "string \<Rightarrow> bool" where
  "exponent s =
     (case s of
        [] \<Rightarrow> False
      | c # r \<Rightarrow> (if c = CHR ''+'' \<or> c = CHR ''-'' then digitpart r else digitpart s))"

definition floatnumber :: "string \<Rightarrow> bool" where
  "floatnumber s =
     (let m = takeWhile (\<lambda>c. c \<noteq> CHR ''e'' \<and> c \<noteq> CHR ''E'') s;
          r = dropWhile (\<lambda>c. c \<noteq> CHR ''e'' \<and> c \<noteq> CHR ''E'') s
      in case r of [] \<Rightarrow> number m | e # ex \<Rightarrow> number m \<and> exponent ex)"

definition absfloatvalue :: "string \<Rightarrow> bool" where
  "absfloatvalue s = (map lower s \<in> set [''inf'', ''infinity'', ''nan''] \<or> floatnumber s)"

definition floatvalue :: "string \<Rightarrow> bool" where
  "floatvalue s =
     (case s of
        [] \<Rightarrow> False
      | c # r \<Rightarrow> (if c = CHR ''+'' \<or> c = CHR ''-'' then absfloatvalue r else absfloatvalue s))"

definition python_float_ok :: "string \<Rightarrow> bool" where
  "python_float_ok s =
     floatvalue (rev (dropWhile float_space (rev (dropWhile float_space s))))"

record cpp_constant =
  cpp_use_enum :: bool
  cpp_value :: string

definition numeric_limits :: "string \<Rightarrow> string" where
  "numeric_limits cname =
     ''::std::numeric_limits<typename ::uavcan::StorageType<typename ConstantTypes::''
     @ cname @ ''>::Type>''"

definition special_values :: "string \<Rightarrow> (string \<times> string) list" where
  "special_values cname =
     (let numeric_limits_inf = numeric_limits cname @ ''::infinity()''
      in [(''inf'', numeric_limits_inf),
          (''+inf'', numeric_limits_inf),
          (''-inf'', ''-'' @ numeric_limits_inf),
          (''nan'', numeric_limits cname @ ''::quiet_NaN()'')])"

text \<open>The body of the loop of \<^verbatim>\<open>inject_constant_info\<close>, for one constant.\<close>

definition inject_constant :: "dsdl_constant \<Rightarrow> error + cpp_constant" where
  "inject_constant c =
     (if kind (const_type c) = KIND_FLOAT then
        (case map_of (special_values (const_name c)) (string_value c) of
           Some v \<Rightarrow> Inr \<lparr> cpp_use_enum = False, cpp_value = v \<rparr>
         | None \<Rightarrow>
             (if python_float_ok (string_value c)
              then Inr \<lparr> cpp_use_enum = False, cpp_value = string_value c \<rparr>
              else Inl (ValueError (string_value c))))
      else Inr \<lparr> cpp_use_enum = (value c \<ge> 0 \<and> bitlen (const_type c) \<le> MAX_BITLEN_FOR_ENUM),
                 cpp_value = string_value c \<rparr>)"

definition inject_constant_info :: "dsdl_constant list \<Rightarrow> error + cpp_constant list" where
  "inject_constant_info cs = collect (map inject_constant cs)"

subsection \<open>generate_one_type: the text\<close>

text \<open>
  The rendered text is a Python \<^verbatim>\<open>str\<close>: a list of code points. \<^verbatim>\<open>str.splitlines\<close>
  ends a line at each of the line boundaries below, a carriage return followed by a
  line feed being one boundary; \<^verbatim>\<open>str.rstrip\<close> drops the white space at the end.
\<close>

type_synonym str = "nat list"

definition is_linebreak :: "nat \<Rightarrow> bool" where
  "is_linebreak c = (c \<in> set [0x0A, 0x0B, 0x0C, 0x0D, 0x1C, 0x1D, 0x1E, 0x85, 0x2028, 0x2029])"

definition is_space :: "nat \<Rightarrow> bool" where
  "is_space c =
     (c \<in> set [0x09, 0x0A, 0x0B, 0x0C, 0x0D, 0x1C, 0x1D, 0x1E, 0x1F, 0x20, 0x85, 0xA0, 0x1680,
                0x2000, 0x2001, 0x2002, 0x2003, 0x2004, 0x2005, 0x2006, 0x2007, 0x2008,
                0x2009, 0x200A, 0x2028, 0x2029, 0x202F, 0x205F, 0x3000])"

function splitlines :: "str \<Rightarrow> str list" where
  "splitlines [] = []"
| "splitlines (c # s) =
     (let line = takeWhile (\<lambda>x. \<not> is_linebreak x) (c # s);
          rest = dropWhile (\<lambda>x. \<not> is_linebreak x) (c # s)
      in line #
         (case rest of
            [] \<Rightarrow> []
          | b # r \<Rightarrow>
              (if b = 0x0D \<and> prefix [0x0A] r then splitlines (tl r) else splitlines r)))"
  by pat_completeness auto
termination
proof (relation "measure length")
  show "wf (measure length)" by simp
next
  fix c :: nat and s line rest :: str and b :: nat and r :: str
  assume rest: "rest = dropWhile (\<lambda>x. \<not> is_linebreak x) (c # s)" "rest = b # r"
  have "length rest \<le> length (c # s)"
    unfolding rest(1) by (rule length_dropWhile_le)
  then have len: "length r < length (c # s)"
    using rest(2) by simp
  then show "(r, c # s) \<in> measure length" by simp
  from len show "(tl r, c # s) \<in> measure length" by simp
qed

declare splitlines.simps [simp del]

definition rstrip :: "str \<Rightarrow> str" where
  "rstrip l = rev (dropWhile is_space (rev l))"

definition strip_lines :: "str \<Rightarrow> str" where
  "strip_lines t = join [0x0A] (map rstrip (splitlines t))"

text \<open>Lines 163 to 165 of the source: the three steps applied to the rendered text.\<close>

definition normalize :: "str \<Rightarrow> str" where
  "normalize t =
     replace [0x7B, 0x0A, 0x0A, 0x20] [0x7B, 0x0A, 0x20]
       (replace [0x0A, 0x0A, 0x0A] [0x0A, 0x0A]
          (replace [0x0A, 0x0A, 0x0A, 0x0A] [0x0A, 0x0A] (strip_lines t)))"

subsection \<open>generate_one_type\<close>

text \<open>
  What the template reads from the annotated type, besides the type itself. The lists
  of a message are those of its fields and constants, the lists of a service those of
  its request and response; the others stay empty. The template is a parameter.
\<close>

record generated_type =
  short_name :: string
  cpp_includes :: "string set"
  cpp_namespace_components :: "string list"
  has_default_dtid :: bool
  fields_cpp_type :: "string list"
  constants_cpp_type :: "string list"
  request_fields_cpp_type :: "string list"
  request_constants_cpp_type :: "string list"
  response_fields_cpp_type :: "string list"
  response_constants_cpp_type :: "string list"
  constants_info :: "cpp_constant list"
  request_constants_info :: "cpp_constant list"
  response_constants_info :: "cpp_constant list"
  cpp_kind :: string

definition bind_err :: "error + 'a \<Rightarrow> ('a \<Rightarrow> error + 'b) \<Rightarrow> error + 'b" where
  "bind_err m f = (case m of Inl e \<Rightarrow> Inl e | Inr x \<Rightarrow> f x)"

fun cpp_kind_of :: "compound_kind \<Rightarrow> string" where
  "cpp_kind_of KIND_MESSAGE = ''::uavcan::DataTypeKindMessage''"
| "cpp_kind_of KIND_SERVICE = ''::uavcan::DataTypeKindService''"

definition annotate :: "os_path \<Rightarrow> compound_type \<Rightarrow> error + generated_type" where
  "annotate os t =
     bind_err (if compound_kind t = KIND_MESSAGE then fields_includes os (t_fields t)
               else fields_includes os (request_fields t @ response_fields t)) (\<lambda>includes.
     bind_err (if compound_kind t = KIND_MESSAGE
               then bind_err (inject_cpp_types (map type (t_fields t))) (\<lambda>f.
                    bind_err (inject_cpp_types (map (PrimitiveType \<circ> const_type) (constants t))) (\<lambda>c.
                    Inr (f, c, [], [], [], [])))
               else bind_err (inject_cpp_types (map type (request_fields t))) (\<lambda>qf.
                    bind_err (inject_cpp_types (map (PrimitiveType \<circ> const_type) (request_constants t))) (\<lambda>qc.
                    bind_err (inject_cpp_types (map type (response_fields t))) (\<lambda>rf.
                    bind_err (inject_cpp_types (map (PrimitiveType \<circ> const_type) (response_constants t))) (\<lambda>rc.
                    Inr ([], [], qf, qc, rf, rc)))))) (\<lambda>(f, c, qf, qc, rf, rc).
     bind_err (if compound_kind t = KIND_MESSAGE
               then bind_err (inject_constant_info (constants t)) (\<lambda>ci. Inr (ci, [], []))
               else bind_err (inject_constant_info (request_constants t)) (\<lambda>qi.
                    bind_err (inject_constant_info (response_constants t)) (\<lambda>ri.
                    Inr ([], qi, ri)))) (\<lambda>(ci, qi, ri).
     Inr \<lparr> short_name = last (split (CHR ''.'') (full_name t)),
           cpp_includes = includes,
           cpp_namespace_components = butlast (split (CHR ''.'') (full_name t)),
           has_default_dtid = (default_dtid t \<noteq> None),
           fields_cpp_type = f, constants_cpp_type = c,
           request_fields_cpp_type = qf, request_constants_cpp_type = qc,
           response_fields_cpp_type = rf, response_constants_cpp_type = rc,
           constants_info = ci, request_constants_info = qi, response_constants_info = ri,
           cpp_kind = cpp_kind_of (compound_kind t) \<rparr>)))"

definition generate_one_type ::
  "os_path \<Rightarrow> (compound_type \<Rightarrow> generated_type \<Rightarrow> str) \<Rightarrow> compound_type \<Rightarrow> error + str" where
  "generate_one_type os render t =
     bind_err (annotate os t) (\<lambda>g. Inr (normalize (render t g)))"

subsection \<open>run_generator\<close>

text \<open>
  The generator leaves the files it has written, each with its path and its text, and
  the exception that ended it, if any. The file system itself is not modelled.
\<close>

definition file_path :: "os_path \<Rightarrow> string \<Rightarrow> compound_type \<Rightarrow> error + string" where
  "file_path os dest_dir t =
     bind_err (type_output_filename os (CompoundType (full_name t)))
       (\<lambda>n. Inr (path_join os dest_dir n))"

fun generate_types ::
  "os_path \<Rightarrow> (compound_type \<Rightarrow> generated_type \<Rightarrow> str) \<Rightarrow> string \<Rightarrow> compound_type list
     \<Rightarrow> (string \<times> str) list \<times> error option" where
  "generate_types os render dest_dir [] = ([], None)"
| "generate_types os render dest_dir (t # ts) =
     (case file_path os dest_dir t of
        Inl e \<Rightarrow> ([], Some e)
      | Inr p \<Rightarrow>
          (case generate_one_type os render t of
             Inl e \<Rightarrow> ([], Some e)
           | Inr txt \<Rightarrow>
               (case generate_types os render dest_dir ts of
                  (written, r) \<Rightarrow> ((p, txt) # written, r))))"

definition run_generator ::
  "os_path \<Rightarrow> (compound_type \<Rightarrow> generated_type \<Rightarrow> str) \<Rightarrow> compound_type list \<Rightarrow> string
     \<Rightarrow> (string \<times> str) list \<times> error option" where
  "run_generator os render types dest_dir =
     generate_types os render (abspath os dest_dir) types"

section \<open>Notions used to state the properties\<close>

text \<open>The type that is left when all array layers are taken off.\<close>

fun innermost :: "dsdl_type \<Rightarrow> dsdl_type" where
  "innermost (ArrayType v m n) = innermost v"
| "innermost t = t"

text \<open>Reading a decimal numeral back.\<close>

definition digit_value :: "char \<Rightarrow> nat" where
  "digit_value c = length (takeWhile (\<lambda>d. d \<noteq> c) ''0123456789'')"

definition nat_of_string :: "string \<Rightarrow> nat" where
  "nat_of_string s = foldl (\<lambda>a c. 10 * a + digit_value c) 0 s"

definition int_of_string :: "string \<Rightarrow> int" where
  "int_of_string s =
     (case s of
        [] \<Rightarrow> 0
      | c # r \<Rightarrow> (if c = CHR ''-'' then - int (nat_of_string r) else int (nat_of_string s)))"

text \<open>
  The path the specification gives for the file of a type: the absolute destination
  directory, joined with the components of the full name, the separator between them,
  and the extension.
\<close>

definition output_path :: "os_path \<Rightarrow> string \<Rightarrow> string \<Rightarrow> string" where
  "output_path os dest_dir n =
     path_join os (abspath os dest_dir)
       (join (sep os) (split (CHR ''.'') n) @ ''.'' @ CPP_HEADER_EXTENSION)"

text \<open>The fields whose types the includes of a type are collected from.\<close>

definition dependency_fields :: "compound_type \<Rightarrow> attribute list" where
  "dependency_fields t =
     (if compound_kind t = KIND_MESSAGE then t_fields t else request_fields t @ response_fields t)"

text \<open>Two types to evaluate the generator on: a message and a service that uses it.\<close>

definition Foo :: compound_type where
  "Foo = \<lparr> full_name = ''ns.Foo'', compound_kind = KIND_MESSAGE,
           t_fields = [\<lparr> name = ''x'', type = PrimitiveType
              \<lparr> kind = KIND_UNSIGNED_INT, bitlen = 8, cast_mode = CAST_MODE_SATURATED \<rparr> \<rparr>],
           constants = [\<lparr> const_name = ''A'', const_type =
              \<lparr> kind = KIND_UNSIGNED_INT, bitlen = 8, cast_mode = CAST_MODE_SATURATED \<rparr>,
              string_value = ''5'', value = 5 \<rparr>],
           request_fields = [], request_constants = [],
           response_fields = [], response_constants = [], default_dtid = None \<rparr>"

definition Bar :: compound_type where
  "Bar = \<lparr> full_name = ''ns.Bar'', compound_kind = KIND_SERVICE,
           t_fields = [], constants = [],
           request_fields = [\<lparr> name = ''a'', type = CompoundType ''ns.Foo'' \<rparr>],
           request_constants = [],
           response_fields = [\<lparr> name = ''b'', type = CompoundType ''ns.Foo'' \<rparr>,
                              \<lparr> name = ''c'', type = ArrayType (PrimitiveType
              \<lparr> kind = KIND_FLOAT, bitlen = 16, cast_mode = CAST_MODE_TRUNCATED \<rparr>) MODE_STATIC 4 \<rparr>],
           response_constants = [], default_dtid = Some 7 \<rparr>"

text \<open>
  White space other than the line feed, and the texts in which every line boundary is a
  line feed and no line ends with white space.
\<close>

definition blank :: "nat \<Rightarrow> bool" where
  "blank c = (is_space c \<and> c \<noteq> 0x0A)"

fun tidy :: "str \<Rightarrow> bool" where
  "tidy [] = True"
| "tidy [c] = (\<not> blank c)"
| "tidy (c # d # s) =
     ((is_linebreak c \<longrightarrow> c = 0x0A) \<and> (d = 0x0A \<longrightarrow> \<not> blank c) \<and> tidy (d # s))"

section \<open>Properties\<close>

subsection \<open>Strings\<close>

lemma collect_map_Inr: "collect (map (\<lambda>x. Inr (f x)) xs) = Inr (map f xs)"
  by (induction xs) simp_all

lemma join_Cons_Cons: "join d ((x # w) # ws) = x # join d (w # ws)"
  by (cases ws) simp_all

lemma split_not_Nil: "split c s \<noteq> []"
  by (induction s) (auto split: list.splits)

text \<open>Replacing a character is splitting at it and joining with the replacement.\<close>

lemma replace_single: "replace [c] new s = join new (split c s)"
proof (induction s)
  case Nil
  show ?case by (simp add: replace_def)
next
  case (Cons x s)
  obtain w ws where sp: "split c s = w # ws"
    using split_not_Nil [of c s] by (cases "split c s") auto
  show ?case
  proof (cases "x = c")
    case True
    with Cons sp show ?thesis by (simp add: replace_def)
  next
    case False
    with Cons sp show ?thesis by (simp add: replace_def join_Cons_Cons)
  qed
qed

subsection \<open>Constants\<close>

text \<open>
  Claim C4. For a constant whose kind is not float (an integer or a boolean), the
  evaluation succeeds, keeps the literal, and sets \<open>cpp_use_enum\<close> exactly when the
  value is not negative and the bit length is at most 31.
\<close>

theorem cpp_use_enum_iff:
  "kind (const_type c) \<noteq> KIND_FLOAT \<Longrightarrow>
   inject_constant c =
     Inr \<lparr> cpp_use_enum = (0 \<le> value c \<and> bitlen (const_type c) \<le> 31),
           cpp_value = string_value c \<rparr>"
  by (simp add: inject_constant_def MAX_BITLEN_FOR_ENUM_def)

text \<open>
  Bit length 31 with value 0 is eligible, bit length 32 with value 0 is not, the value
  -1 is not, and a boolean 1 is.
\<close>

theorem cpp_use_enum_iff_witness:
  "inject_constant \<lparr> const_name = ''A'',
      const_type = \<lparr> kind = KIND_UNSIGNED_INT, bitlen = 31, cast_mode = CAST_MODE_SATURATED \<rparr>,
      string_value = ''0'', value = 0 \<rparr> = Inr \<lparr> cpp_use_enum = True, cpp_value = ''0'' \<rparr>
   \<and> inject_constant \<lparr> const_name = ''A'',
      const_type = \<lparr> kind = KIND_SIGNED_INT, bitlen = 32, cast_mode = CAST_MODE_SATURATED \<rparr>,
      string_value = ''0'', value = 0 \<rparr> = Inr \<lparr> cpp_use_enum = False, cpp_value = ''0'' \<rparr>
   \<and> inject_constant \<lparr> const_name = ''A'',
      const_type = \<lparr> kind = KIND_SIGNED_INT, bitlen = 8, cast_mode = CAST_MODE_TRUNCATED \<rparr>,
      string_value = ''-1'', value = - 1 \<rparr> = Inr \<lparr> cpp_use_enum = False, cpp_value = ''-1'' \<rparr>
   \<and> inject_constant \<lparr> const_name = ''A'',
      const_type = \<lparr> kind = KIND_BOOLEAN, bitlen = 1, cast_mode = CAST_MODE_SATURATED \<rparr>,
      string_value = ''1'', value = 1 \<rparr> = Inr \<lparr> cpp_use_enum = True, cpp_value = ''1'' \<rparr>"
  using
    cpp_use_enum_iff [of "\<lparr> const_name = ''A'',
      const_type = \<lparr> kind = KIND_UNSIGNED_INT, bitlen = 31, cast_mode = CAST_MODE_SATURATED \<rparr>,
      string_value = ''0'', value = 0 \<rparr>"]
    cpp_use_enum_iff [of "\<lparr> const_name = ''A'',
      const_type = \<lparr> kind = KIND_SIGNED_INT, bitlen = 32, cast_mode = CAST_MODE_SATURATED \<rparr>,
      string_value = ''0'', value = 0 \<rparr>"]
    cpp_use_enum_iff [of "\<lparr> const_name = ''A'',
      const_type = \<lparr> kind = KIND_SIGNED_INT, bitlen = 8, cast_mode = CAST_MODE_TRUNCATED \<rparr>,
      string_value = ''-1'', value = - 1 \<rparr>"]
    cpp_use_enum_iff [of "\<lparr> const_name = ''A'',
      const_type = \<lparr> kind = KIND_BOOLEAN, bitlen = 1, cast_mode = CAST_MODE_SATURATED \<rparr>,
      string_value = ''1'', value = 1 \<rparr>"]
  by simp

lemma special_values_eq:
  "special_values n =
     [(''inf'', numeric_limits n @ ''::infinity()''),
      (''+inf'', numeric_limits n @ ''::infinity()''),
      (''-inf'', ''-'' @ numeric_limits n @ ''::infinity()''),
      (''nan'', numeric_limits n @ ''::quiet_NaN()'')]"
  by (simp add: special_values_def Let_def)

text \<open>
  Claim C5. For a float constant, the literals \<open>inf\<close> and \<open>+inf\<close> evaluate to the same
  infinity of the constant's storage type, \<open>-inf\<close> to that with a minus sign before it,
  \<open>nan\<close> to the quiet NaN; and whatever the literal, the evaluation either yields a
  constant whose \<open>cpp_use_enum\<close> is false or raises ValueError.
\<close>

theorem float_special_values:
  "kind (const_type c) = KIND_FLOAT \<Longrightarrow>
     inject_constant (c\<lparr> string_value := ''inf'' \<rparr>)
       = Inr \<lparr> cpp_use_enum = False, cpp_value = numeric_limits (const_name c) @ ''::infinity()'' \<rparr>
   \<and> inject_constant (c\<lparr> string_value := ''+inf'' \<rparr>)
       = Inr \<lparr> cpp_use_enum = False, cpp_value = numeric_limits (const_name c) @ ''::infinity()'' \<rparr>
   \<and> inject_constant (c\<lparr> string_value := ''-inf'' \<rparr>)
       = Inr \<lparr> cpp_use_enum = False,
               cpp_value = ''-'' @ numeric_limits (const_name c) @ ''::infinity()'' \<rparr>
   \<and> inject_constant (c\<lparr> string_value := ''nan'' \<rparr>)
       = Inr \<lparr> cpp_use_enum = False, cpp_value = numeric_limits (const_name c) @ ''::quiet_NaN()'' \<rparr>
   \<and> ((\<exists>v. inject_constant c = Inr \<lparr> cpp_use_enum = False, cpp_value = v \<rparr>)
        \<or> inject_constant c = Inl (ValueError (string_value c)))"
  by (simp add: inject_constant_def special_values_eq split: option.splits)

theorem float_special_values_witness:
  "inject_constant \<lparr> const_name = ''X'',
      const_type = \<lparr> kind = KIND_FLOAT, bitlen = 32, cast_mode = CAST_MODE_SATURATED \<rparr>,
      string_value = ''inf'', value = 0 \<rparr>
    = Inr \<lparr> cpp_use_enum = False, cpp_value =
        ''::std::numeric_limits<typename ::uavcan::StorageType<typename ConstantTypes::X>::Type>::infinity()'' \<rparr>
   \<and> inject_constant \<lparr> const_name = ''X'',
      const_type = \<lparr> kind = KIND_FLOAT, bitlen = 32, cast_mode = CAST_MODE_SATURATED \<rparr>,
      string_value = ''+inf'', value = 0 \<rparr>
    = Inr \<lparr> cpp_use_enum = False, cpp_value =
        ''::std::numeric_limits<typename ::uavcan::StorageType<typename ConstantTypes::X>::Type>::infinity()'' \<rparr>
   \<and> inject_constant \<lparr> const_name = ''X'',
      const_type = \<lparr> kind = KIND_FLOAT, bitlen = 32, cast_mode = CAST_MODE_SATURATED \<rparr>,
      string_value = ''-inf'', value = 0 \<rparr>
    = Inr \<lparr> cpp_use_enum = False, cpp_value =
        ''-::std::numeric_limits<typename ::uavcan::StorageType<typename ConstantTypes::X>::Type>::infinity()'' \<rparr>
   \<and> inject_constant \<lparr> const_name = ''X'',
      const_type = \<lparr> kind = KIND_FLOAT, bitlen = 32, cast_mode = CAST_MODE_SATURATED \<rparr>,
      string_value = ''nan'', value = 0 \<rparr>
    = Inr \<lparr> cpp_use_enum = False, cpp_value =
        ''::std::numeric_limits<typename ::uavcan::StorageType<typename ConstantTypes::X>::Type>::quiet_NaN()'' \<rparr>"
  using float_special_values [of "\<lparr> const_name = ''X'',
      const_type = \<lparr> kind = KIND_FLOAT, bitlen = 32, cast_mode = CAST_MODE_SATURATED \<rparr>,
      string_value = ''1.5'', value = 0 \<rparr>"]
  by (simp add: numeric_limits_def)

lemma float_ok_INF: "python_float_ok ''INF''"
  by (simp add: python_float_ok_def float_space_def floatvalue_def absfloatvalue_def lower_def)

lemma float_ok_Infinity: "python_float_ok ''Infinity''"
  by (simp add: python_float_ok_def float_space_def floatvalue_def absfloatvalue_def lower_def)

lemma float_ok_nan_space: "python_float_ok ''nan ''"
  by (simp add: python_float_ok_def float_space_def floatvalue_def absfloatvalue_def lower_def)

text \<open>
  Claim C3. The table is matched exactly, so \<open>INF\<close> is not in it; the literal then goes to
  \<open>float\<close>, which is there to make sure that it is a valid float literal but takes
  \<open>inf\<close>, \<open>infinity\<close> and \<open>nan\<close> in any case and with white space around them. So the
  evaluation of \<open>INF\<close> does not fail: it returns, and the literal is handed on unchanged
  as the value, where the table would have given the infinity of the storage type. The
  same holds for \<open>Infinity\<close> and for \<open>nan\<close> followed by a space.
\<close>

theorem float_INF_accepted:
  "map_of (special_values ''X'') ''INF'' = None
   \<and> inject_constant \<lparr> const_name = ''X'',
      const_type = \<lparr> kind = KIND_FLOAT, bitlen = 32, cast_mode = CAST_MODE_SATURATED \<rparr>,
      string_value = ''INF'', value = 0 \<rparr>
    = Inr \<lparr> cpp_use_enum = False, cpp_value = ''INF'' \<rparr>
   \<and> inject_constant \<lparr> const_name = ''X'',
      const_type = \<lparr> kind = KIND_FLOAT, bitlen = 32, cast_mode = CAST_MODE_SATURATED \<rparr>,
      string_value = ''Infinity'', value = 0 \<rparr>
    = Inr \<lparr> cpp_use_enum = False, cpp_value = ''Infinity'' \<rparr>
   \<and> inject_constant \<lparr> const_name = ''X'',
      const_type = \<lparr> kind = KIND_FLOAT, bitlen = 32, cast_mode = CAST_MODE_SATURATED \<rparr>,
      string_value = ''nan '', value = 0 \<rparr>
    = Inr \<lparr> cpp_use_enum = False, cpp_value = ''nan '' \<rparr>"
  by (simp add: inject_constant_def special_values_eq float_ok_INF float_ok_Infinity
        float_ok_nan_space)

subsection \<open>Decimal numerals\<close>

lemma digit_value_digit_char: "d < 10 \<Longrightarrow> digit_value (digit_char d) = d"
proof -
  assume "d < 10"
  then have "d \<in> {0, 1, 2, 3, 4, 5, 6, 7, 8, 9}" by auto
  then show ?thesis by (auto simp: digit_value_def digit_char_def)
qed

lemma nat_of_string_snoc: "nat_of_string (s @ [c]) = 10 * nat_of_string s + digit_value c"
  by (simp add: nat_of_string_def)

lemma nat_of_string_of_nat: "nat_of_string (string_of_nat n) = n"
proof (induction n rule: string_of_nat.induct)
  case (1 n)
  show ?case
  proof (cases "n < 10")
    case True
    then show ?thesis
      by (subst string_of_nat.simps) (simp add: nat_of_string_def digit_value_digit_char)
  next
    case False
    with 1 have "nat_of_string (string_of_nat (n div 10)) = n div 10" by simp
    with False show ?thesis
      by (subst string_of_nat.simps) (simp add: nat_of_string_snoc digit_value_digit_char)
  qed
qed

lemma hd_string_of_nat: "hd (string_of_nat n) \<noteq> CHR ''-'' \<and> string_of_nat n \<noteq> []"
proof (induction n rule: string_of_nat.induct)
  case (1 n)
  show ?case
  proof (cases "n < 10")
    case True
    then have "n \<in> {0, 1, 2, 3, 4, 5, 6, 7, 8, 9}" by auto
    then show ?thesis
      by (subst (1 2) string_of_nat.simps) (auto simp: digit_char_def)
  next
    case False
    with 1 show ?thesis
      by (subst (1 2) string_of_nat.simps) simp
  qed
qed

lemma int_of_string_of_int: "int_of_string (string_of_int i) = i"
proof (cases "i < 0")
  case True
  then show ?thesis by (simp add: int_of_string_def string_of_int_def nat_of_string_of_nat)
next
  case False
  obtain c r where cr: "string_of_nat (nat i) = c # r" "c \<noteq> CHR ''-''"
    using hd_string_of_nat [of "nat i"] by (cases "string_of_nat (nat i)") auto
  have "nat_of_string (c # r) = nat i"
    using nat_of_string_of_nat [of "nat i"] cr by simp
  with False cr show ?thesis
    by (simp add: int_of_string_def string_of_int_def)
qed

lemma string_of_nat_eval:
  "string_of_nat n =
     (if n < 10 then [digit_char n] else string_of_nat (n div 10) @ [digit_char (n mod 10)])"
  by (rule string_of_nat.simps)

subsection \<open>The type mapper\<close>

lemma primitive_maps: "\<exists>d. type_to_cpp_type (PrimitiveType p) = Inr d"
  by (cases "kind p") simp_all

text \<open>
  Claim C6. An array has one of the three known categories, but the mapper fails on it
  when its element type has none of them.
\<close>

theorem array_of_unknown_fails:
  "category (ArrayType (OtherType ''7'') MODE_STATIC 1) = CATEGORY_ARRAY
   \<and> type_to_cpp_type (ArrayType (OtherType ''7'') MODE_STATIC 1)
       = Inl (DsdlCompilerException ''Unknown type category: 7'')"
  by simp

text \<open>
  Claim C6, as the code has it. The mapper raises the exception for an unknown category
  exactly when the type that is left after taking off all array layers has a category
  outside the three known ones; in every other case it returns a descriptor.
\<close>

theorem unknown_category_fails:
  "(case category (innermost t) of
      CATEGORY_OTHER c \<Rightarrow>
        type_to_cpp_type t = Inl (DsdlCompilerException (''Unknown type category: '' @ c))
    | _ \<Rightarrow> (\<exists>d. type_to_cpp_type t = Inr d))"
proof (induction t)
  case (PrimitiveType p)
  show ?case using primitive_maps [of p] by simp
next
  case (ArrayType v m n)
  then show ?case by (cases "category (innermost v)") auto
next
  case (CompoundType n)
  show ?case by simp
next
  case (OtherType c)
  show ?case by simp
qed

theorem unknown_category_fails_witness:
  "type_to_cpp_type (ArrayType (ArrayType (OtherType ''7'') MODE_STATIC 2) MODE_DYNAMIC 3)
     = Inl (DsdlCompilerException ''Unknown type category: 7'')
   \<and> (\<exists>d. type_to_cpp_type (ArrayType (CompoundType ''ns.Foo'') MODE_DYNAMIC 3) = Inr d)"
  using
    unknown_category_fails [of "ArrayType (ArrayType (OtherType ''7'') MODE_STATIC 2) MODE_DYNAMIC 3"]
    unknown_category_fails [of "ArrayType (CompoundType ''ns.Foo'') MODE_DYNAMIC 3"]
  by simp

text \<open>
  Claim C8. The descriptor of an array consists of the descriptor of its element type,
  its mode and the decimal numeral of its \<open>max_size\<close>, from which \<open>max_size\<close> is read
  back unchanged; the mapping fails only when that of the element type does. The
  descriptor of a compound type is its full name, split at the dots and joined with the
  scope separator, after a leading scope separator.
\<close>

theorem array_and_compound_descriptor:
  "type_to_cpp_type (ArrayType v m n) =
     bind_err (type_to_cpp_type v)
       (\<lambda>d. Inr (''::uavcan::Array<'' @ d @ '', '' @ array_mode_cpp m @ '', ''
                  @ string_of_int n @ ''>''))
   \<and> int_of_string (string_of_int n) = n
   \<and> type_to_cpp_type (CompoundType fn) = Inr (''::'' @ join ''::'' (split (CHR ''.'') fn))"
  by (simp add: bind_err_def replace_single int_of_string_of_int split: sum.splits)

theorem array_and_compound_descriptor_witness:
  "type_to_cpp_type (ArrayType (ArrayType (CompoundType ''a.b.Foo'') MODE_STATIC 120) MODE_DYNAMIC 3)
     = Inr ''::uavcan::Array<::uavcan::Array<::a::b::Foo, ::uavcan::ArrayModeStatic, 120>, ::uavcan::ArrayModeDynamic, 3>''
   \<and> int_of_string ''120'' = 120"
proof -
  have s3: "string_of_int 3 = ''3''" and s120: "string_of_int 120 = ''120''"
    by (simp_all add: string_of_int_def string_of_nat_eval digit_char_def)
  have j: "join ''::'' (split (CHR ''.'') ''a.b.Foo'') = ''a::b::Foo''"
    by simp
  note outer = array_and_compound_descriptor
    [of "ArrayType (CompoundType ''a.b.Foo'') MODE_STATIC 120" MODE_DYNAMIC 3 "''a.b.Foo''"]
  note inner = array_and_compound_descriptor
    [of "CompoundType ''a.b.Foo''" MODE_STATIC 120 "''a.b.Foo''"]
  from inner have c: "type_to_cpp_type (CompoundType ''a.b.Foo'') = Inr ''::a::b::Foo''"
    using j by simp
  from inner have r: "int_of_string ''120'' = 120"
    using s120 by simp
  from inner c have i: "type_to_cpp_type (ArrayType (CompoundType ''a.b.Foo'') MODE_STATIC 120)
      = Inr ''::uavcan::Array<::a::b::Foo, ::uavcan::ArrayModeStatic, 120>''"
    using s120 by (simp add: bind_err_def)
  from outer i have "type_to_cpp_type
      (ArrayType (ArrayType (CompoundType ''a.b.Foo'') MODE_STATIC 120) MODE_DYNAMIC 3)
     = Inr ''::uavcan::Array<::uavcan::Array<::a::b::Foo, ::uavcan::ArrayModeStatic, 120>, ::uavcan::ArrayModeDynamic, 3>''"
    using s3 by (simp add: bind_err_def)
  with r show ?thesis by simp
qed

subsection \<open>The includes\<close>

lemma type_output_filename_compound:
  "type_output_filename os (CompoundType n) = Inr (replace ''.'' (sep os) n @ ''.hpp'')"
  by (simp add: type_output_filename_def CPP_HEADER_EXTENSION_def)

lemma collect_includes:
  "collect (map (\<lambda>x. type_output_filename os (type x))
              (filter (\<lambda>x. category (type x) = CATEGORY_COMPOUND) fs))
   = Inr (map (\<lambda>x. replace ''.'' (sep os) (type_full_name (type x)) @ ''.hpp'')
              (filter (\<lambda>x. category (type x) = CATEGORY_COMPOUND) fs))"
proof (induction fs)
  case Nil
  show ?case by simp
next
  case (Cons x fs)
  show ?case
  proof (cases "type x")
    case (CompoundType n)
    with Cons show ?thesis by (simp add: type_output_filename_compound)
  qed (use Cons in simp_all)
qed

lemma fields_includes_eq:
  "fields_includes os fs =
     Inr ((\<lambda>x. replace ''.'' (sep os) (type_full_name (type x)) @ ''.hpp'')
            ` {x \<in> set fs. category (type x) = CATEGORY_COMPOUND})"
  by (simp add: fields_includes_def collect_includes)

lemma category_compound_iff: "category t = CATEGORY_COMPOUND \<longleftrightarrow> (\<exists>n. t = CompoundType n)"
  by (cases t) simp_all

text \<open>
  Claim C7. The includes are a set that depends only on which compound types the
  fields name: a permutation of the fields gives the same set, and a compound type named
  by several fields is in it once.
\<close>

theorem fields_includes_set:
  "mset fs = mset gs \<Longrightarrow>
     fields_includes os fs = fields_includes os gs
   \<and> fields_includes os fs =
       Inr ((\<lambda>n. replace ''.'' (sep os) n @ ''.'' @ CPP_HEADER_EXTENSION)
              ` {n. \<exists>x \<in> set fs. type x = CompoundType n})"
proof -
  assume "mset fs = mset gs"
  then have "set fs = set gs" by (rule mset_eq_setD)
  then have 1: "fields_includes os fs = fields_includes os gs"
    by (simp add: fields_includes_eq)
  have "(\<lambda>x. replace ''.'' (sep os) (type_full_name (type x)) @ ''.hpp'')
            ` {x \<in> set fs. category (type x) = CATEGORY_COMPOUND}
        = (\<lambda>n. replace ''.'' (sep os) n @ ''.hpp'') ` {n. \<exists>x \<in> set fs. type x = CompoundType n}"
    by (force simp: category_compound_iff image_iff)
  then have 2: "fields_includes os fs =
       Inr ((\<lambda>n. replace ''.'' (sep os) n @ ''.'' @ CPP_HEADER_EXTENSION)
              ` {n. \<exists>x \<in> set fs. type x = CompoundType n})"
    by (simp add: fields_includes_eq CPP_HEADER_EXTENSION_def)
  from 1 2 show ?thesis by simp
qed

theorem fields_includes_set_witness:
  "fields_includes (posix ''/w'')
     [\<lparr> name = ''FieldA'', type = CompoundType ''X'' \<rparr>,
      \<lparr> name = ''FieldB'', type = CompoundType ''X'' \<rparr>,
      \<lparr> name = ''FieldC'', type = PrimitiveType
          \<lparr> kind = KIND_UNSIGNED_INT, bitlen = 8, cast_mode = CAST_MODE_SATURATED \<rparr> \<rparr>]
     = Inr {''X.hpp''}
   \<and> fields_includes (posix ''/w'')
     [\<lparr> name = ''FieldC'', type = PrimitiveType
          \<lparr> kind = KIND_UNSIGNED_INT, bitlen = 8, cast_mode = CAST_MODE_SATURATED \<rparr> \<rparr>,
      \<lparr> name = ''FieldB'', type = CompoundType ''X'' \<rparr>,
      \<lparr> name = ''FieldA'', type = CompoundType ''X'' \<rparr>]
     = Inr {''X.hpp''}"
proof -
  let ?a = "\<lparr> name = ''FieldA'', type = CompoundType ''X'' \<rparr>"
  let ?b = "\<lparr> name = ''FieldB'', type = CompoundType ''X'' \<rparr>"
  let ?c = "\<lparr> name = ''FieldC'', type = PrimitiveType
          \<lparr> kind = KIND_UNSIGNED_INT, bitlen = 8, cast_mode = CAST_MODE_SATURATED \<rparr> \<rparr>"
  have m: "mset [?a, ?b, ?c] = mset [?c, ?b, ?a]" by (simp add: add.commute)
  have e: "fields_includes (posix ''/w'') [?a, ?b, ?c] = Inr {''X.hpp''}"
    by (simp add: fields_includes_def type_output_filename_def posix_def replace_def
          CPP_HEADER_EXTENSION_def)
  have "fields_includes (posix ''/w'') [?a, ?b, ?c] = fields_includes (posix ''/w'') [?c, ?b, ?a]"
    using fields_includes_set [OF m, of "posix ''/w''"] by (rule conjunct1)
  with e show ?thesis by simp
qed

text \<open>
  Claim C1. A field whose type is an array of a compound type adds nothing to the
  includes, although its descriptor names the compound type.
\<close>

theorem array_of_compound_not_included:
  "fields_includes os (fs @ [\<lparr> name = a, type = ArrayType (CompoundType n) m k \<rparr>])
     = fields_includes os fs
   \<and> fields_includes os [\<lparr> name = a, type = ArrayType (CompoundType n) m k \<rparr>] = Inr {}
   \<and> type_to_cpp_type (ArrayType (CompoundType n) m k)
       = Inr (''::uavcan::Array<::'' @ replace ''.'' ''::'' n @ '', '' @ array_mode_cpp m
              @ '', '' @ string_of_int k @ ''>'')"
  by (simp add: fields_includes_def)

subsection \<open>The files\<close>

lemma file_path_eq:
  "file_path os d t = Inr (path_join os d (replace ''.'' (sep os) (full_name t) @ ''.hpp''))"
  by (simp add: file_path_def bind_err_def type_output_filename_compound)

lemma generate_types_paths:
  "map fst (fst (generate_types os render d ts))
     = take (length (fst (generate_types os render d ts)))
         (map (\<lambda>t. path_join os d (replace ''.'' (sep os) (full_name t) @ ''.hpp'')) ts)
   \<and> (snd (generate_types os render d ts) = None
        \<longrightarrow> length (fst (generate_types os render d ts)) = length ts)"
proof (induction ts)
  case Nil
  show ?case by simp
next
  case (Cons t ts)
  show ?case
  proof (cases "generate_one_type os render t")
    case (Inl e)
    then show ?thesis by (simp add: file_path_eq)
  next
    case (Inr out)
    with Cons show ?thesis
      by (cases "generate_types os render d ts") (simp add: file_path_eq)
  qed
qed

text \<open>
  Claim C9. The file of a type is at the absolute destination directory joined with the
  full name, its dots replaced by the separator, and the extension; the generator writes
  the files of the types in their order at these paths, all of them unless it fails.
\<close>

theorem output_file_path:
  "file_path os (abspath os dest_dir) t = Inr (output_path os dest_dir (full_name t))
   \<and> map fst (fst (run_generator os render types dest_dir))
       = take (length (fst (run_generator os render types dest_dir)))
           (map (\<lambda>t. output_path os dest_dir (full_name t)) types)
   \<and> (snd (run_generator os render types dest_dir) = None
        \<longrightarrow> length (fst (run_generator os render types dest_dir)) = length types)"
  using generate_types_paths [of os render "abspath os dest_dir" types]
  by (simp add: run_generator_def output_path_def file_path_eq replace_single [symmetric]
        CPP_HEADER_EXTENSION_def)

theorem output_file_path_witness:
  "file_path (posix ''/home/u'') (abspath (posix ''/home/u'') ''./outdir'') Foo
     = Inr ''/home/u/outdir/ns/Foo.hpp''
   \<and> run_generator (posix ''/home/u'') (\<lambda>t g. []) [Foo] ''./outdir''
     = ([(''/home/u/outdir/ns/Foo.hpp'', [])], None)"
proof -
  have p: "output_path (posix ''/home/u'') ''./outdir'' (full_name Foo) = ''/home/u/outdir/ns/Foo.hpp''"
    by code_simp
  have r: "run_generator (posix ''/home/u'') (\<lambda>t g. []) [Foo] ''./outdir''
     = ([(''/home/u/outdir/ns/Foo.hpp'', [])], None)"
    by code_simp
  from output_file_path [of "posix ''/home/u''" "''./outdir''" Foo "\<lambda>t g. []" "[Foo]"] p r
  show ?thesis by simp
qed

lemma annotate_includes:
  "annotate os t = Inr g \<Longrightarrow> fields_includes os (dependency_fields t) = Inr (cpp_includes g)"
  unfolding annotate_def dependency_fields_def bind_err_def
  by (cases "compound_kind t = KIND_MESSAGE")
     (auto simp: fields_includes_eq split: sum.splits prod.splits)

text \<open>
  Claim C10. Every include of an annotated type is the output file name of the type of
  one of its fields, every field of compound type has its include, and the file of the
  type it names is written at the destination directory joined with that include.
\<close>

theorem includes_match_layout:
  "annotate os t = Inr g \<Longrightarrow>
     (\<forall>inc \<in> cpp_includes g. \<exists>x \<in> set (dependency_fields t).
         category (type x) = CATEGORY_COMPOUND \<and> type_output_filename os (type x) = Inr inc)
   \<and> (\<forall>x \<in> set (dependency_fields t). \<forall>u.
         category (type x) = CATEGORY_COMPOUND \<and> full_name u = type_full_name (type x) \<longrightarrow>
         (\<exists>inc \<in> cpp_includes g.
             type_output_filename os (type x) = Inr inc
           \<and> file_path os dest_dir u = Inr (path_join os dest_dir inc)))"
proof -
  assume "annotate os t = Inr g"
  then have "fields_includes os (dependency_fields t) = Inr (cpp_includes g)"
    by (rule annotate_includes)
  then have inc: "cpp_includes g =
      (\<lambda>x. replace ''.'' (sep os) (type_full_name (type x)) @ ''.hpp'')
         ` {x \<in> set (dependency_fields t). category (type x) = CATEGORY_COMPOUND}"
    by (simp add: fields_includes_eq)
  have fn: "\<And>x. category (type x) = CATEGORY_COMPOUND \<Longrightarrow>
      type_output_filename os (type x)
        = Inr (replace ''.'' (sep os) (type_full_name (type x)) @ ''.hpp'')"
    by (simp add: type_output_filename_def CPP_HEADER_EXTENSION_def)
  show ?thesis
    unfolding inc using fn by (auto simp: file_path_eq)
qed

theorem includes_match_layout_witness:
  "(\<exists>g. annotate (posix ''/home/u'') Bar = Inr g \<and> cpp_includes g = {''ns/Foo.hpp''})
   \<and> file_path (posix ''/home/u'') ''/home/u/outdir'' Foo
       = Inr (posix_join ''/home/u/outdir'' ''ns/Foo.hpp'')"
proof -
  obtain g where g: "annotate (posix ''/home/u'') Bar = Inr g"
    by (simp add: annotate_def bind_err_def Bar_def fields_includes_eq inject_cpp_types_def
          inject_constant_info_def)
  have d: "dependency_fields Bar =
      [\<lparr> name = ''a'', type = CompoundType ''ns.Foo'' \<rparr>,
       \<lparr> name = ''b'', type = CompoundType ''ns.Foo'' \<rparr>,
       \<lparr> name = ''c'', type = ArrayType (PrimitiveType
              \<lparr> kind = KIND_FLOAT, bitlen = 16, cast_mode = CAST_MODE_TRUNCATED \<rparr>) MODE_STATIC 4 \<rparr>]"
    by (simp add: dependency_fields_def Bar_def)
  have n: "type_output_filename (posix ''/home/u'') (CompoundType ''ns.Foo'') = Inr ''ns/Foo.hpp''"
    by (simp add: type_output_filename_def posix_def replace_def CPP_HEADER_EXTENSION_def)
  note th = includes_match_layout [OF g, of "''/home/u/outdir''"]
  from th have "\<forall>inc \<in> cpp_includes g. \<exists>x \<in> set (dependency_fields Bar).
         category (type x) = CATEGORY_COMPOUND
       \<and> type_output_filename (posix ''/home/u'') (type x) = Inr inc"
    by (rule conjunct1)
  then have 1: "\<forall>inc \<in> cpp_includes g. inc = ''ns/Foo.hpp''"
    unfolding d using n by auto
  have ain: "\<lparr> name = ''a'', type = CompoundType ''ns.Foo'' \<rparr> \<in> set (dependency_fields Bar)"
    by (simp add: d)
  have pre: "category (type \<lparr> name = ''a'', type = CompoundType ''ns.Foo'' \<rparr>) = CATEGORY_COMPOUND
      \<and> full_name Foo = type_full_name (type \<lparr> name = ''a'', type = CompoundType ''ns.Foo'' \<rparr>)"
    by (simp add: Foo_def)
  from th have "\<forall>x \<in> set (dependency_fields Bar). \<forall>u.
         category (type x) = CATEGORY_COMPOUND \<and> full_name u = type_full_name (type x) \<longrightarrow>
         (\<exists>inc \<in> cpp_includes g.
             type_output_filename (posix ''/home/u'') (type x) = Inr inc
           \<and> file_path (posix ''/home/u'') ''/home/u/outdir'' u
               = Inr (path_join (posix ''/home/u'') ''/home/u/outdir'' inc))"
    by (rule conjunct2)
  from this [rule_format, OF ain pre] have "\<exists>inc \<in> cpp_includes g.
        type_output_filename (posix ''/home/u'') (CompoundType ''ns.Foo'') = Inr inc
      \<and> file_path (posix ''/home/u'') ''/home/u/outdir'' Foo
          = Inr (path_join (posix ''/home/u'') ''/home/u/outdir'' inc)"
    by simp
  then obtain inc where i: "inc \<in> cpp_includes g"
      "type_output_filename (posix ''/home/u'') (CompoundType ''ns.Foo'') = Inr inc"
      "file_path (posix ''/home/u'') ''/home/u/outdir'' Foo
          = Inr (path_join (posix ''/home/u'') ''/home/u/outdir'' inc)"
    by blast
  from i(2) n have e: "inc = ''ns/Foo.hpp''" by simp
  have pj: "path_join (posix ''/home/u'') = posix_join" by (simp add: posix_def)
  from i(1) e have 2: "''ns/Foo.hpp'' \<in> cpp_includes g" by simp
  from i(3) e pj have 3: "file_path (posix ''/home/u'') ''/home/u/outdir'' Foo
       = Inr (posix_join ''/home/u/outdir'' ''ns/Foo.hpp'')" by simp
  from 1 2 have "cpp_includes g = {''ns/Foo.hpp''}" by blast
  with g 3 show ?thesis by simp
qed

subsection \<open>The text\<close>

lemma linebreak_nl [simp]: "is_linebreak 10"
  by (simp add: is_linebreak_def)

lemma linebreak_space: "is_linebreak c \<Longrightarrow> is_space c"
  by (auto simp: is_linebreak_def is_space_def)

lemma not_blank_nl [simp]: "\<not> blank 10"
  by (simp add: blank_def)

lemma tidy_nl_Cons [simp]: "tidy (10 # r) = tidy r"
  by (cases r) simp_all

lemma tidy_Cons_tail: "tidy (c # s) \<Longrightarrow> tidy s"
  by (cases s) simp_all

lemma tidy_drop: "tidy s \<Longrightarrow> tidy (drop n s)"
proof (induction n arbitrary: s)
  case 0
  then show ?case by simp
next
  case (Suc n)
  then show ?case by (cases s) (auto dest: tidy_Cons_tail)
qed

lemma tidy_line_nl:
  "\<forall>c \<in> set l. \<not> is_linebreak c \<Longrightarrow>
     tidy (l @ 10 # r) \<longleftrightarrow> (l = [] \<or> \<not> is_space (last l)) \<and> tidy r"
proof (induction l rule: induct_list012)
  case 1
  show ?case by simp
next
  case (2 c)
  then have "c \<noteq> 10" by auto
  with 2 show ?case by (auto simp: blank_def)
next
  case (3 c d l)
  then have "d \<noteq> 10" by auto
  with 3 show ?case by auto
qed

lemma tidy_line:
  "\<forall>c \<in> set l. \<not> is_linebreak c \<Longrightarrow> tidy l \<longleftrightarrow> (l = [] \<or> \<not> is_space (last l))"
proof (induction l rule: induct_list012)
  case 1
  show ?case by simp
next
  case (2 c)
  then have "c \<noteq> 10" by auto
  with 2 show ?case by (auto simp: blank_def)
next
  case (3 c d l)
  then have "d \<noteq> 10" by auto
  with 3 show ?case by auto
qed

lemma tidy_linebreaks: "tidy s \<Longrightarrow> c \<in> set s \<Longrightarrow> is_linebreak c \<Longrightarrow> c = 10"
proof (induction s rule: tidy.induct)
  case 1
  then show ?case by simp
next
  case (2 d)
  then show ?case using linebreak_space [of c] by (auto simp: blank_def)
next
  case (3 a b s)
  then show ?case by auto
qed


lemma splitlines_Nil [simp]: "splitlines [] = []"
  by (simp add: splitlines.simps)

lemma splitlines_line_nl:
  assumes "\<forall>c \<in> set l. \<not> is_linebreak c"
  shows "splitlines (l @ 10 # r) = l # splitlines r"
proof -
  have t: "takeWhile (\<lambda>x. \<not> is_linebreak x) (l @ 10 # r) = l"
    using assms by (simp add: takeWhile_append2)
  have d: "dropWhile (\<lambda>x. \<not> is_linebreak x) (l @ 10 # r) = 10 # r"
    using assms by (simp add: dropWhile_append2)
  obtain c s where cs: "l @ 10 # r = c # s" by (cases l) auto
  have "splitlines (c # s) = l # splitlines r"
    by (subst splitlines.simps) (simp add: cs [symmetric] t d Let_def)
  with cs show ?thesis by simp
qed

lemma splitlines_line:
  assumes "\<forall>c \<in> set l. \<not> is_linebreak c" and "l \<noteq> []"
  shows "splitlines l = [l]"
proof -
  have t: "takeWhile (\<lambda>x. \<not> is_linebreak x) l = l"
    using assms(1) by (simp add: takeWhile_eq_all_conv)
  have d: "dropWhile (\<lambda>x. \<not> is_linebreak x) l = []"
    using assms(1) by simp
  obtain c s where cs: "l = c # s" using assms(2) by (cases l) auto
  have "splitlines (c # s) = [l]"
    by (subst splitlines.simps) (simp add: cs [symmetric] t d Let_def)
  with cs show ?thesis by simp
qed

lemma splitlines_no_linebreak:
  "l \<in> set (splitlines t) \<Longrightarrow> c \<in> set l \<Longrightarrow> \<not> is_linebreak c"
proof (induction t arbitrary: l rule: splitlines.induct)
  case 1
  then show ?case by simp
next
  case (2 a s)
  let ?line = "takeWhile (\<lambda>x. \<not> is_linebreak x) (a # s)"
  let ?rest = "dropWhile (\<lambda>x. \<not> is_linebreak x) (a # s)"
  show ?case
  proof (cases "l = ?line")
    case True
    with 2(4) show ?thesis by (auto dest: set_takeWhileD)
  next
    case False
    show ?thesis
    proof (cases ?rest)
      case Nil
      with 2(3) False show ?thesis
        by (subst (asm) splitlines.simps) (simp add: Let_def)
    next
      case (Cons b r)
      show ?thesis
      proof (cases "b = 0x0D \<and> prefix [0x0A] r")
        case True
        with 2(3) False Cons have "l \<in> set (splitlines (tl r))"
          by (subst (asm) splitlines.simps) (simp add: Let_def)
        with 2(1) [OF refl refl Cons True] 2(4) show ?thesis by blast
      next
        case False2: False
        with 2(3) False Cons have "l \<in> set (splitlines r)"
          by (subst (asm) splitlines.simps) (auto simp: Let_def)
        with 2(2) [OF refl refl Cons False2] 2(4) show ?thesis by blast
      qed
    qed
  qed
qed

lemma rstrip_set: "set (rstrip l) \<subseteq> set l"
  using set_dropWhileD [of _ is_space "rev l"] by (auto simp: rstrip_def)

lemma rstrip_last: "rstrip l = [] \<or> \<not> is_space (last (rstrip l))"
proof (cases "dropWhile is_space (rev l)")
  case Nil
  then show ?thesis by (simp add: rstrip_def)
next
  case (Cons a as)
  then have "\<not> is_space a"
    using hd_dropWhile [of is_space "rev l"] by auto
  with Cons show ?thesis by (simp add: rstrip_def)
qed

lemma rstrip_id: "l = [] \<or> \<not> is_space (last l) \<Longrightarrow> rstrip l = l"
  by (cases l rule: rev_cases) (auto simp: rstrip_def)


lemma join_Cons_ne: "ls \<noteq> [] \<Longrightarrow> join d (l # ls) = l @ d @ join d ls"
  by (cases ls) simp_all

lemma tidy_join:
  "\<forall>l \<in> set ls. (\<forall>c \<in> set l. \<not> is_linebreak c) \<and> (l = [] \<or> \<not> is_space (last l))
     \<Longrightarrow> tidy (join [10] ls)"
proof (induction ls rule: induct_list012)
  case 1
  show ?case by simp
next
  case (2 l)
  then show ?case by (simp add: tidy_line)
next
  case (3 l k ls)
  then show ?case by (simp add: tidy_line_nl)
qed

lemma tidy_strip_lines: "tidy (strip_lines t)"
  unfolding strip_lines_def
proof (rule tidy_join, rule ballI)
  fix l assume "l \<in> set (map rstrip (splitlines t))"
  then obtain k where k: "k \<in> set (splitlines t)" "l = rstrip k" by auto
  have "\<forall>c \<in> set l. \<not> is_linebreak c"
    using k rstrip_set [of k] splitlines_no_linebreak [of k t] by blast
  moreover have "l = [] \<or> \<not> is_space (last l)"
    using k(2) rstrip_last [of k] by simp
  ultimately show "(\<forall>c \<in> set l. \<not> is_linebreak c) \<and> (l = [] \<or> \<not> is_space (last l))"
    by simp
qed

lemma splitlines_eq_Nil: "splitlines t = [] \<longleftrightarrow> t = []"
  by (cases t) (simp_all add: splitlines.simps Let_def)

lemma strip_lines_line_nl:
  assumes "\<forall>c \<in> set l. \<not> is_linebreak c" and "l = [] \<or> \<not> is_space (last l)"
  shows "strip_lines (l @ 10 # r) = (if r = [] then l else l @ 10 # strip_lines r)"
proof -
  have sp: "splitlines (l @ 10 # r) = l # splitlines r"
    using assms(1) by (rule splitlines_line_nl)
  have rl: "rstrip l = l" using assms(2) by (rule rstrip_id)
  show ?thesis
  proof (cases "r = []")
    case True
    with sp rl show ?thesis by (simp add: strip_lines_def)
  next
    case False
    then have "map rstrip (splitlines r) \<noteq> []"
      by (simp add: splitlines_eq_Nil)
    with sp rl False show ?thesis by (simp add: strip_lines_def join_Cons_ne)
  qed
qed

lemma strip_lines_line:
  assumes "\<forall>c \<in> set l. \<not> is_linebreak c" and "l = [] \<or> \<not> is_space (last l)"
  shows "strip_lines l = l"
proof (cases "l = []")
  case True
  then show ?thesis by (simp add: strip_lines_def)
next
  case False
  with assms(1) have "splitlines l = [l]" by (rule splitlines_line)
  moreover have "rstrip l = l" using assms(2) by (rule rstrip_id)
  ultimately show ?thesis by (simp add: strip_lines_def)
qed

lemma strip_lines_tidy:
  "tidy y \<Longrightarrow> strip_lines y = (if y \<noteq> [] \<and> last y = 10 then butlast y else y)"
proof (induction y rule: length_induct)
  case (1 y)
  let ?P = "\<lambda>x. \<not> is_linebreak x"
  define l where "l = takeWhile ?P y"
  define rest where "rest = dropWhile ?P y"
  have line: "\<forall>c \<in> set l. \<not> is_linebreak c"
    unfolding l_def by (auto dest: set_takeWhileD)
  have y: "y = l @ rest" by (simp add: l_def rest_def)
  show ?case
  proof (cases rest)
    case Nil
    with y have yl: "y = l" by simp
    from 1(2) line have ok: "l = [] \<or> \<not> is_space (last l)"
      unfolding yl by (simp add: tidy_line)
    have "l = [] \<or> last l \<noteq> 10"
      using line last_in_set [of l] linebreak_nl by metis
    with strip_lines_line [OF line ok] show ?thesis
      unfolding yl by auto
  next
    case (Cons b r)
    then have "is_linebreak b"
      using hd_dropWhile [of ?P y] by (auto simp: rest_def)
    moreover have "b \<in> set y"
      using Cons y by simp
    ultimately have b: "b = 10"
      using 1(2) tidy_linebreaks by blast
    from y Cons b have yy: "y = l @ 10 # r" by simp
    from 1(2) have ok: "l = [] \<or> \<not> is_space (last l)" and tr: "tidy r"
      unfolding yy using line by (simp_all add: tidy_line_nl)
    have "length r < length y" unfolding yy by simp
    with 1(1) tr have ih: "strip_lines r = (if r \<noteq> [] \<and> last r = 10 then butlast r else r)"
      by blast
    show ?thesis
      unfolding yy strip_lines_line_nl [OF line ok] using ih
      by (simp add: butlast_append)
  qed
qed


lemma replace_ne_absent: "old \<noteq> [] \<Longrightarrow> \<not> sublist old s \<Longrightarrow> replace_ne old new s = s"
proof (induction s)
  case Nil
  show ?case by simp
next
  case (Cons c s)
  from Cons(2,3) have "\<not> prefix old (c # s)" "\<not> sublist old s"
    by (auto simp: sublist_Cons_right)
  with Cons show ?case by simp
qed

lemma replace_ne_length:
  "old \<noteq> [] \<Longrightarrow> length new \<le> length old \<Longrightarrow> length (replace_ne old new s) \<le> length s"
proof (induction old new s rule: replace_ne.induct)
  case (1 old new)
  show ?case by simp
next
  case (2 old new c s)
  show ?case
  proof (cases "prefix old (c # s)")
    case True
    then have "length old \<le> Suc (length s)"
      using prefix_length_le by fastforce
    moreover have "length (replace_ne old new (drop (length old - 1) s)) \<le> length s - (length old - 1)"
      using 2(1) [OF True 2(3,4)] by simp
    ultimately show ?thesis using True 2(3,4) by (cases old) auto
  next
    case False
    with 2(2) [OF False 2(3,4)] show ?thesis by simp
  qed
qed

lemma replace_ne_shorter:
  "old \<noteq> [] \<Longrightarrow> length new < length old \<Longrightarrow> sublist old s
     \<Longrightarrow> length (replace_ne old new s) < length s"
proof (induction s)
  case Nil
  then show ?case by simp
next
  case (Cons c s)
  show ?case
  proof (cases "prefix old (c # s)")
    case True
    then have "length old \<le> Suc (length s)"
      using prefix_length_le by fastforce
    moreover have "length (replace_ne old new (drop (length old - 1) s)) \<le> length s - (length old - 1)"
      using replace_ne_length [of old new "drop (length old - 1) s"] Cons(2,3) by simp
    ultimately show ?thesis using True Cons(2,3) by (cases old) auto
  next
    case False
    with Cons(4) have "sublist old s" using Cons(2) by (auto simp: sublist_Cons_right)
    with Cons False show ?thesis by simp
  qed
qed

lemma replace_ne_hd:
  "old \<noteq> [] \<Longrightarrow> new \<noteq> [] \<Longrightarrow> hd new = hd old \<Longrightarrow> s \<noteq> []
     \<Longrightarrow> replace_ne old new s \<noteq> [] \<and> hd (replace_ne old new s) = hd s"
  by (cases s; cases old) auto

lemma tidy_Cons_same_hd:
  "tidy (c # s) \<Longrightarrow> tidy r \<Longrightarrow> (s = [] \<longrightarrow> r = []) \<Longrightarrow> (s \<noteq> [] \<longrightarrow> r \<noteq> [] \<and> hd r = hd s)
     \<Longrightarrow> tidy (c # r)"
  by (cases s; cases r) auto

lemma tidy_replace_newlines:
  "old \<noteq> [] \<Longrightarrow> hd old = 10 \<Longrightarrow> tidy s \<Longrightarrow> tidy (replace_ne old [10, 10] s)"
proof (induction old "[10, 10 :: nat]" s rule: replace_ne.induct)
  case (1 old)
  show ?case by simp
next
  case (2 old c s)
  show ?case
  proof (cases "prefix old (c # s)")
    case True
    have "tidy (drop (length old - 1) s)"
      using 2(5) by (auto intro: tidy_drop dest: tidy_Cons_tail)
    with 2(1) [OF True 2(3,4)] True show ?thesis by simp
  next
    case False
    have ts: "tidy s" using 2(5) by (rule tidy_Cons_tail)
    have "tidy (c # replace_ne old [10, 10] s)"
    proof (rule tidy_Cons_same_hd [OF 2(5)])
      show "tidy (replace_ne old [10, 10] s)" using 2(2) [OF False 2(3,4) ts] .
      show "s = [] \<longrightarrow> replace_ne old [10, 10] s = []" by simp
      show "s \<noteq> [] \<longrightarrow> replace_ne old [10, 10] s \<noteq> [] \<and> hd (replace_ne old [10, 10] s) = hd s"
        using replace_ne_hd [of old "[10, 10]" s] 2(3,4) by simp
    qed
    with False show ?thesis by simp
  qed
qed


lemma not_space_brace [simp]: "\<not> is_space 123" "\<not> is_linebreak 123" "\<not> is_linebreak 32"
  by (simp_all add: is_space_def is_linebreak_def)

lemma tidy_replace_brace:
  "tidy s \<Longrightarrow> tidy (replace_ne [123, 10, 10, 32] [123, 10, 32] s)"
proof (induction "[123, 10, 10, 32 :: nat]" "[123, 10, 32 :: nat]" s rule: replace_ne.induct)
  case 1
  show ?case by simp
next
  case (2 c s)
  show ?case
  proof (cases "prefix [123, 10, 10, 32] (c # s)")
    case True
    then obtain r where r: "c # s = 123 # 10 # 10 # 32 # r"
      unfolding prefix_def by auto
    then have s: "s = 10 # 10 # 32 # r" and c: "c = 123" by simp_all
    from 2(3) have t32: "tidy (32 # r)" unfolding r by (simp add: blank_def)
    then have tr: "tidy r" by (rule tidy_Cons_tail)
    have ih: "tidy (replace_ne [123, 10, 10, 32] [123, 10, 32] r)"
      using 2(1) [OF True] tr by (simp add: s)
    have "tidy (32 # replace_ne [123, 10, 10, 32] [123, 10, 32] r)"
    proof (rule tidy_Cons_same_hd [OF t32 ih])
      show "r = [] \<longrightarrow> replace_ne [123, 10, 10, 32] [123, 10, 32] r = []" by simp
      show "r \<noteq> [] \<longrightarrow> replace_ne [123, 10, 10, 32] [123, 10, 32] r \<noteq> []
          \<and> hd (replace_ne [123, 10, 10, 32] [123, 10, 32] r) = hd r"
        using replace_ne_hd [of "[123, 10, 10, 32]" "[123, 10, 32]" r] by simp
    qed
    then have "tidy (123 # 10 # 32 # replace_ne [123, 10, 10, 32] [123, 10, 32] r)"
      by (simp add: blank_def)
    with True show ?thesis by (simp add: s)
  next
    case False
    have ts: "tidy s" using 2(3) by (rule tidy_Cons_tail)
    have "tidy (c # replace_ne [123, 10, 10, 32] [123, 10, 32] s)"
    proof (rule tidy_Cons_same_hd [OF 2(3)])
      show "tidy (replace_ne [123, 10, 10, 32] [123, 10, 32] s)" using 2(2) [OF False ts] .
      show "s = [] \<longrightarrow> replace_ne [123, 10, 10, 32] [123, 10, 32] s = []" by simp
      show "s \<noteq> [] \<longrightarrow> replace_ne [123, 10, 10, 32] [123, 10, 32] s \<noteq> []
          \<and> hd (replace_ne [123, 10, 10, 32] [123, 10, 32] s) = hd s"
        using replace_ne_hd [of "[123, 10, 10, 32]" "[123, 10, 32]" s] by simp
    qed
    with False show ?thesis by (simp only: replace_ne.simps if_False)
  qed
qed

lemma replace_ne_other_hd:
  "old \<noteq> [] \<Longrightarrow> new \<noteq> [] \<Longrightarrow> replace_ne old new s = x # r \<Longrightarrow> x \<noteq> hd new
     \<Longrightarrow> \<exists>s'. s = x # s' \<and> r = replace_ne old new s'"
  by (cases s; cases new) (auto split: if_splits)

lemma brace_gone:
  "\<not> sublist [123, 10, 10, 32] (replace_ne [123, 10, 10, 32] [123, 10, 32] (s :: str))"
proof (induction s rule: length_induct)
  case (1 s)
  let ?f = "replace_ne [123, 10, 10, 32] [123, 10, 32 :: nat]"
  show ?case
  proof (cases s)
    case Nil
    then show ?thesis by simp
  next
    case (Cons c s')
    show ?thesis
    proof (cases "prefix [123, 10, 10, 32] s")
      case True
      then obtain r where r: "s = 123 # 10 # 10 # 32 # r"
        unfolding prefix_def by auto
      have "\<not> sublist [123, 10, 10, 32] (?f r)"
        using 1 r by simp
      then show ?thesis
        unfolding r by (simp add: sublist_Cons_right)
    next
      case False
      have ih: "\<not> sublist [123, 10, 10, 32] (?f s')"
        using 1 Cons by simp
      have "\<not> prefix [123, 10, 10, 32] (c # ?f s')"
      proof
        assume "prefix [123, 10, 10, 32] (c # ?f s')"
        then obtain r where r: "c = 123" "?f s' = 10 # 10 # 32 # r"
          unfolding prefix_def by auto
        from replace_ne_other_hd [OF _ _ r(2)]
        obtain s1 where s1: "s' = 10 # s1" "10 # 32 # r = ?f s1" by auto
        from replace_ne_other_hd [OF _ _ s1(2) [symmetric]]
        obtain s2 where s2: "s1 = 10 # s2" "32 # r = ?f s2" by auto
        from replace_ne_other_hd [OF _ _ s2(2) [symmetric]]
        obtain s3 where s3: "s2 = 32 # s3" by auto
        from Cons r(1) s1(1) s2(1) s3 have "prefix [123, 10, 10, 32] s" by simp
        with False show False by simp
      qed
      moreover have "?f s = c # ?f s'"
        using False unfolding Cons by (simp only: replace_ne.simps if_False)
      ultimately show ?thesis using ih by (simp add: sublist_Cons_right)
    qed
  qed
qed


lemma normalize_eq:
  "normalize t =
     replace_ne [123, 10, 10, 32] [123, 10, 32]
       (replace_ne [10, 10, 10] [10, 10] (replace_ne [10, 10, 10, 10] [10, 10] (strip_lines t)))"
  by (simp add: normalize_def replace_def)

lemma tidy_normalize: "tidy (normalize t)"
  unfolding normalize_eq
  by (intro tidy_replace_brace tidy_replace_newlines tidy_strip_lines) simp_all

lemma brace_gone_normalize: "\<not> sublist [123, 10, 10, 32] (normalize t)"
  unfolding normalize_eq by (rule brace_gone)

lemma normalize_length: "length (normalize t) \<le> length (strip_lines t)"
proof -
  have "length (normalize t)
      \<le> length (replace_ne [10, 10, 10] [10, 10] (replace_ne [10, 10, 10, 10] [10, 10] (strip_lines t)))"
    unfolding normalize_eq by (rule replace_ne_length) simp_all
  also have "\<dots> \<le> length (replace_ne [10, 10, 10, 10] [10, 10] (strip_lines t))"
    by (rule replace_ne_length) simp_all
  also have "\<dots> \<le> length (strip_lines t)"
    by (rule replace_ne_length) simp_all
  finally show ?thesis .
qed

lemma suffix_nl: "suffix [10] (y :: str) \<longleftrightarrow> y \<noteq> [] \<and> last y = 10"
  by (cases y rule: rev_cases) (auto simp: suffix_def)

lemma normalize_idempotent_iff:
  "normalize (normalize x) = normalize x
     \<longleftrightarrow> \<not> sublist [10, 10, 10] (normalize x) \<and> \<not> suffix [10] (normalize x)"
proof -
  define y where "y = normalize x"
  have ty: "tidy y" unfolding y_def by (rule tidy_normalize)
  have nb: "\<not> sublist [123, 10, 10, 32] y" unfolding y_def by (rule brace_gone_normalize)
  have s: "strip_lines y = (if y \<noteq> [] \<and> last y = 10 then butlast y else y)"
    using ty by (rule strip_lines_tidy)
  have "normalize y = y \<longleftrightarrow> \<not> sublist [10, 10, 10] y \<and> \<not> suffix [10] y"
  proof (cases "suffix [10] y")
    case True
    then have "length (strip_lines y) < length y"
      using s by (simp add: suffix_nl)
    with normalize_length [of y] have "length (normalize y) < length y" by simp
    then have "normalize y \<noteq> y" by auto
    with True show ?thesis by simp
  next
    case False
    then have sy: "strip_lines y = y" using s by (auto simp: suffix_nl)
    show ?thesis
    proof (cases "sublist [10, 10, 10] y")
      case no3: False
      have "\<not> sublist [10, 10, 10, 10] y"
      proof
        assume "sublist [10, 10, 10, 10] y"
        moreover have "sublist [10, 10, 10] [10, 10, 10, 10 :: nat]"
          by (simp add: sublist_Cons_right)
        ultimately have "sublist [10, 10, 10] y"
          by (rule sublist_order.order.trans [rotated])
        with no3 show False by simp
      qed
      then have "normalize y = y"
        unfolding normalize_eq sy using no3 nb by (simp add: replace_ne_absent)
      with no3 False show ?thesis by simp
    next
      case has3: True
      let ?z = "replace_ne [10, 10, 10, 10] [10, 10] y"
      have "length (replace_ne [10, 10, 10] [10, 10] ?z) < length y"
      proof (cases "sublist [10, 10, 10, 10] y")
        case True
        then have "length ?z < length y" by (intro replace_ne_shorter) simp_all
        moreover have "length (replace_ne [10, 10, 10] [10, 10] ?z) \<le> length ?z"
          by (rule replace_ne_length) simp_all
        ultimately show ?thesis by simp
      next
        case False
        then have "?z = y" by (simp add: replace_ne_absent)
        with has3 show ?thesis by (simp add: replace_ne_shorter)
      qed
      moreover have "length (normalize y) \<le> length (replace_ne [10, 10, 10] [10, 10] ?z)"
        unfolding normalize_eq sy by (rule replace_ne_length) simp_all
      ultimately have "normalize y \<noteq> y" by auto
      with has3 show ?thesis by simp
    qed
  qed
  then show ?thesis by (simp add: y_def)
qed

lemma prefix_run:
  "rest = [] \<or> hd rest \<noteq> 10 \<Longrightarrow>
     prefix (replicate b 10) (replicate m (10::nat) @ rest) \<longleftrightarrow> b \<le> m"
proof (induction m arbitrary: b)
  case 0
  then show ?case by (cases b; cases rest) auto
next
  case (Suc m)
  then show ?case by (cases b) auto
qed

lemma sublist_run:
  "rest = [] \<or> hd rest \<noteq> 10 \<Longrightarrow> 0 < b \<Longrightarrow>
     sublist (replicate b 10) (replicate m (10::nat) @ rest)
       \<longleftrightarrow> b \<le> m \<or> sublist (replicate b 10) (tl rest)"
proof (induction m)
  case 0
  show ?case
  proof (cases rest)
    case Nil
    with 0 show ?thesis by simp
  next
    case (Cons c r)
    with 0 have "\<not> prefix (replicate b 10) (c # r)" by (cases b) auto
    with Cons 0 show ?thesis by (simp add: sublist_Cons_right)
  qed
next
  case (Suc m)
  have "prefix (replicate b 10) (replicate (Suc m) 10 @ rest) \<longleftrightarrow> b \<le> Suc m"
    using Suc(2) by (rule prefix_run)
  with Suc show ?case by (auto simp: sublist_Cons_right)
qed

lemma replace_run:
  assumes "0 < k" and "rest = [] \<or> hd rest \<noteq> 10"
  shows "replace_ne (replicate k 10) (replicate j 10) (replicate n (10::nat) @ rest)
     = replicate (j * (n div k) + n mod k) 10 @ replace_ne (replicate k 10) (replicate j 10) rest"
proof (induction n rule: less_induct)
  case (less n)
  show ?case
  proof (cases n)
    case 0
    then show ?thesis by simp
  next
    case (Suc m)
    have p: "prefix (replicate k 10) (replicate n 10 @ rest) \<longleftrightarrow> k \<le> n"
      using assms(2) by (rule prefix_run)
    show ?thesis
    proof (cases "k \<le> n")
      case True
      have d: "drop (k - 1) (replicate m 10 @ rest) = replicate (n - k) 10 @ rest"
        using True Suc assms(1) by simp
      have "n - k < n" using assms(1) Suc by simp
      from less [OF this] have ih:
        "replace_ne (replicate k 10) (replicate j 10) (replicate (n - k) 10 @ rest)
          = replicate (j * ((n - k) div k) + (n - k) mod k) 10
            @ replace_ne (replicate k 10) (replicate j 10) rest" .
      have a: "j * (n div k) + n mod k = j + (j * ((n - k) div k) + (n - k) mod k)"
        using True assms(1) by (simp add: le_div_geq le_mod_geq)
      have "replace_ne (replicate k 10) (replicate j 10) (10 # replicate m 10 @ rest)
          = replicate j 10 @ replace_ne (replicate k 10) (replicate j 10)
              (replicate (n - k) 10 @ rest)"
        using p True Suc d by simp
      then show ?thesis
        unfolding ih a using Suc by (simp add: replicate_add)
    next
      case False
      have "m < n" using Suc by simp
      from less [OF this] have ih:
        "replace_ne (replicate k 10) (replicate j 10) (replicate m 10 @ rest)
          = replicate (j * (m div k) + m mod k) 10
            @ replace_ne (replicate k 10) (replicate j 10) rest" .
      have "replace_ne (replicate k 10) (replicate j 10) (10 # replicate m 10 @ rest)
          = 10 # replace_ne (replicate k 10) (replicate j 10) (replicate m 10 @ rest)"
        using p False Suc by simp
      then show ?thesis
        unfolding ih using False Suc by simp
    qed
  qed
qed


lemma leading_run:
  "\<exists>n rest. s = replicate n (10::nat) @ rest \<and> (rest = [] \<or> hd rest \<noteq> 10)"
proof (induction s)
  case Nil
  show ?case by simp
next
  case (Cons c s)
  show ?case
  proof (cases "c = 10")
    case True
    from Cons obtain n rest where "s = replicate n 10 @ rest" "rest = [] \<or> hd rest \<noteq> 10"
      by blast
    with True have "c # s = replicate (Suc n) 10 @ rest \<and> (rest = [] \<or> hd rest \<noteq> 10)"
      by simp
    then show ?thesis by blast
  next
    case False
    then have "c # s = replicate 0 10 @ (c # s) \<and> (c # s = [] \<or> hd (c # s) \<noteq> 10)"
      by simp
    then show ?thesis by blast
  qed
qed

lemma runs_bounded:
  assumes "0 < k" and "0 < a" and "0 < b"
    and f: "\<And>n. n < a \<Longrightarrow> j * (n div k) + n mod k < b"
  shows "\<not> sublist (replicate a 10) s
     \<Longrightarrow> \<not> sublist (replicate b 10) (replace_ne (replicate k 10) (replicate j 10) (s :: str))"
proof (induction s rule: length_induct)
  case (1 s)
  obtain n rest where s: "s = replicate n 10 @ rest" and rest: "rest = [] \<or> hd rest \<noteq> 10"
    using leading_run by blast
  from 1(2) have na: "n < a" and ra: "\<not> sublist (replicate a 10) (tl rest)"
    unfolding s using sublist_run [OF rest assms(2), of n] by auto
  have r: "replace_ne (replicate k 10) (replicate j 10) s
     = replicate (j * (n div k) + n mod k) 10 @ replace_ne (replicate k 10) (replicate j 10) rest"
    unfolding s using assms(1) rest by (rule replace_run)
  show ?case
  proof (cases rest)
    case Nil
    then show ?thesis
      unfolding r using sublist_run [of "[]" b "j * (n div k) + n mod k"] f [OF na] assms(3)
      by simp
  next
    case (Cons c t)
    with rest have c: "c \<noteq> 10" by simp
    then have np: "\<not> prefix (replicate k 10) (c # t)"
      using assms(1) by (cases k) auto
    have "length t < length s" unfolding s Cons by simp
    with 1(1) ra Cons
    have ih: "\<not> sublist (replicate b 10) (replace_ne (replicate k 10) (replicate j 10) t)"
      by simp
    have rr: "replace_ne (replicate k 10) (replicate j 10) (c # t)
        = c # replace_ne (replicate k 10) (replicate j 10) t"
      using np by simp
    show ?thesis
      unfolding r Cons rr
      using sublist_run [of "c # replace_ne (replicate k 10) (replicate j 10) t" b
          "j * (n div k) + n mod k"] c f [OF na] assms(3) ih
      by simp
  qed
qed

lemma nl_lists:
  "[10, 10] = replicate 2 (10::nat)" "[10, 10, 10] = replicate 3 (10::nat)"
  "[10, 10, 10, 10] = replicate 4 (10::nat)"
  "[10, 10, 10, 10, 10, 10] = replicate 6 (10::nat)"
  by (simp_all add: eval_nat_numeral)

lemma runs_after_four:
  assumes "\<not> sublist [10, 10, 10, 10, 10, 10] (s :: str)"
  shows "\<not> sublist [10, 10, 10, 10] (replace_ne [10, 10, 10, 10] [10, 10] s)"
proof -
  have "\<not> sublist (replicate 6 10) s
      \<Longrightarrow> \<not> sublist (replicate 4 10) (replace_ne (replicate 4 10) (replicate 2 10) s)"
  proof (rule runs_bounded)
    fix n :: nat assume "n < 6"
    then have "n = 0 \<or> n = 1 \<or> n = 2 \<or> n = 3 \<or> n = 4 \<or> n = 5" by arith
    then show "2 * (n div 4) + n mod 4 < 4" by auto
  qed simp_all
  then show ?thesis using assms unfolding nl_lists [symmetric] .
qed

lemma runs_after_three:
  assumes "\<not> sublist [10, 10, 10, 10] (s :: str)"
  shows "\<not> sublist [10, 10, 10] (replace_ne [10, 10, 10] [10, 10] s)"
proof -
  have "\<not> sublist (replicate 4 10) s
      \<Longrightarrow> \<not> sublist (replicate 3 10) (replace_ne (replicate 3 10) (replicate 2 10) s)"
  proof (rule runs_bounded)
    fix n :: nat assume "n < 4"
    then have "n = 0 \<or> n = 1 \<or> n = 2 \<or> n = 3" by arith
    then show "2 * (n div 3) + n mod 3 < 3" by auto
  qed simp_all
  then show ?thesis using assms unfolding nl_lists [symmetric] .
qed

lemma runs_after_brace:
  "\<not> sublist [10, 10, 10] (s :: str)
     \<Longrightarrow> \<not> sublist [10, 10, 10] (replace_ne [123, 10, 10, 32] [123, 10, 32] s)"
proof (induction s rule: length_induct)
  case (1 s)
  let ?f = "replace_ne [123, 10, 10, 32] [123, 10, 32 :: nat]"
  show ?case
  proof (cases s)
    case Nil
    then show ?thesis by simp
  next
    case (Cons c s')
    show ?thesis
    proof (cases "prefix [123, 10, 10, 32] s")
      case True
      then obtain r where r: "s = 123 # 10 # 10 # 32 # r"
        unfolding prefix_def by auto
      from 1(2) have "\<not> sublist [10, 10, 10] r"
        unfolding r by (simp add: sublist_Cons_right)
      with 1(1) have "\<not> sublist [10, 10, 10] (?f r)"
        unfolding r by simp
      then show ?thesis
        unfolding r by (simp add: sublist_Cons_right)
    next
      case False
      from 1(2) have np: "\<not> prefix [10, 10, 10] (c # s')" and ns: "\<not> sublist [10, 10, 10] s'"
        unfolding Cons by (simp_all add: sublist_Cons_right)
      from 1(1) ns have ih: "\<not> sublist [10, 10, 10] (?f s')"
        unfolding Cons by simp
      have eq: "?f s = c # ?f s'"
        using False unfolding Cons by (simp only: replace_ne.simps if_False)
      have "\<not> prefix [10, 10, 10] (c # ?f s')"
      proof
        assume "prefix [10, 10, 10] (c # ?f s')"
        then obtain r where r: "c = 10" "?f s' = 10 # 10 # r"
          unfolding prefix_def by auto
        from replace_ne_other_hd [OF _ _ r(2)]
        obtain s1 where s1: "s' = 10 # s1" "10 # r = ?f s1" by auto
        from replace_ne_other_hd [OF _ _ s1(2) [symmetric]]
        obtain s2 where s2: "s1 = 10 # s2" by auto
        from r(1) s1(1) s2 np show False by simp
      qed
      with ih show ?thesis unfolding eq by (simp add: sublist_Cons_right)
    qed
  qed
qed

lemma normalize_runs:
  "\<not> sublist [10, 10, 10, 10, 10, 10] (strip_lines t) \<Longrightarrow> \<not> sublist [10, 10, 10] (normalize t)"
  unfolding normalize_eq
  by (intro runs_after_brace runs_after_three runs_after_four)


lemma replace_ne_last:
  "old \<noteq> [] \<Longrightarrow> new \<noteq> [] \<Longrightarrow> last new = last old \<Longrightarrow> s \<noteq> []
     \<Longrightarrow> replace_ne old new s \<noteq> [] \<and> last (replace_ne old new s) = last s"
proof (induction old new s rule: replace_ne.induct)
  case (1 old new)
  then show ?case by simp
next
  case (2 old new c s)
  show ?case
  proof (cases "prefix old (c # s)")
    case True
    then obtain r where r: "c # s = old @ r" by (auto simp: prefix_def)
    then have d: "drop (length old - 1) s = r"
      using 2(3) by (cases old) auto
    show ?thesis
    proof (cases "r = []")
      case True
      with \<open>prefix old (c # s)\<close> d r 2(4,5) show ?thesis
        by (metis append_Nil2 last_appendR replace_ne.simps(1,2) self_append_conv)
    next
      case False
      then have "drop (length old - 1) s \<noteq> []" unfolding d .
      from 2(1) [OF \<open>prefix old (c # s)\<close> 2(3,4,5) this]
      have "replace_ne old new r \<noteq> [] \<and> last (replace_ne old new r) = last r"
        unfolding d .
      moreover have "last (c # s) = last r" using r False by (metis last_appendR)
      ultimately show ?thesis using \<open>prefix old (c # s)\<close> d by simp
    qed
  next
    case False
    show ?thesis
    proof (cases "s = []")
      case True
      with False show ?thesis by simp
    next
      case ne: False
      with 2(2) [OF False 2(3,4,5)] False show ?thesis by simp
    qed
  qed
qed

lemma normalize_suffix:
  "suffix [10] (normalize t) \<longleftrightarrow> suffix [10] (strip_lines t)"
proof (cases "strip_lines t = []")
  case True
  then show ?thesis by (simp add: normalize_eq)
next
  case False
  let ?a = "replace_ne [10, 10, 10, 10] [10, 10] (strip_lines t)"
  let ?b = "replace_ne [10, 10, 10] [10, 10] ?a"
  let ?c = "replace_ne [123, 10, 10, 32] [123, 10, 32] ?b"
  have a: "?a \<noteq> [] \<and> last ?a = last (strip_lines t)"
    using False by (intro replace_ne_last) simp_all
  then have b: "?b \<noteq> [] \<and> last ?b = last ?a"
    by (intro replace_ne_last) simp_all
  then have c: "?c \<noteq> [] \<and> last ?c = last ?b"
    by (intro replace_ne_last) simp_all
  from a b c False show ?thesis
    unfolding normalize_eq suffix_nl by simp
qed

lemma strip_lines_six: "strip_lines [97, 10, 10, 10, 10, 10, 10, 98] = [97, 10, 10, 10, 10, 10, 10, 98]"
  by (simp add: strip_lines_def splitlines.simps rstrip_def is_linebreak_def is_space_def)

lemma strip_lines_three: "strip_lines [97, 10, 10, 10, 98] = [97, 10, 10, 10, 98]"
  by (simp add: strip_lines_def splitlines.simps rstrip_def is_linebreak_def is_space_def)

lemma strip_lines_end2: "strip_lines [97, 10, 10] = [97, 10]"
  by (simp add: strip_lines_def splitlines.simps rstrip_def is_linebreak_def is_space_def)

lemma strip_lines_end1: "strip_lines [97, 10] = [97]"
  by (simp add: strip_lines_def splitlines.simps rstrip_def is_linebreak_def is_space_def)

lemma strip_lines_sample:
  "strip_lines [97, 32, 10, 10, 10, 10, 123, 9, 10, 32, 10, 32, 98, 10]
     = [97, 10, 10, 10, 10, 123, 10, 10, 32, 98]"
  by (simp add: strip_lines_def splitlines.simps rstrip_def is_linebreak_def is_space_def)

text \<open>
  Claim C2. A text with six line feeds in a row is left with three, which a second
  normalization reduces to two; and a text that ends with an empty line loses one line
  feed at its end each time.
\<close>

theorem normalize_not_idempotent:
  "normalize (normalize [97, 10, 10, 10, 10, 10, 10, 98])
     \<noteq> normalize [97, 10, 10, 10, 10, 10, 10, 98]
   \<and> sublist [10, 10, 10] (normalize [97, 10, 10, 10, 10, 10, 10, 98])
   \<and> normalize (normalize [97, 10, 10]) \<noteq> normalize [97, 10, 10]"
proof -
  have 1: "normalize [97, 10, 10, 10, 10, 10, 10, 98] = [97, 10, 10, 10, 98]"
    by (simp add: normalize_eq strip_lines_six)
  have 2: "normalize [97, 10, 10, 10, 98] = [97, 10, 10, 98]"
    by (simp add: normalize_eq strip_lines_three)
  have 3: "normalize [97, 10, 10] = [97, 10]"
    by (simp add: normalize_eq strip_lines_end2)
  have 4: "normalize [97, 10] = [97]"
    by (simp add: normalize_eq strip_lines_end1)
  have 5: "sublist [10, 10, 10] [97, 10, 10, 10, 98 :: nat]"
    by (simp add: sublist_Cons_right)
  show ?thesis unfolding 1 2 3 4 using 5 by simp
qed

text \<open>
  Claim C2, as the code has it. The trailing white space of every line is dropped and the
  lines are joined with line feeds, which drops a line terminator at the end; four line
  feeds are replaced by two in one pass from left to right, then three by two in one
  pass, then a brace, two line feeds and a space by the brace, one line feed and the
  space. Normalizing a second time changes nothing exactly when the normalized text has
  no three line feeds in a row and does not end with a line feed. The normalized text has
  no three line feeds in a row when the text with its lines stripped has no six in a row;
  if that text does not end with a line feed either, the normalization is idempotent.
\<close>

theorem normalize_fixed:
  "(normalize (normalize x) = normalize x
      \<longleftrightarrow> \<not> sublist [10, 10, 10] (normalize x) \<and> \<not> suffix [10] (normalize x))
   \<and> (\<not> sublist [10, 10, 10, 10, 10, 10] (strip_lines x)
        \<longrightarrow> \<not> sublist [10, 10, 10] (normalize x))
   \<and> (\<not> sublist [10, 10, 10, 10, 10, 10] (strip_lines x) \<and> \<not> suffix [10] (strip_lines x)
        \<longrightarrow> normalize (normalize x) = normalize x)"
  using normalize_idempotent_iff [of x] normalize_runs [of x] normalize_suffix [of x]
  by blast

theorem normalize_fixed_witness:
  "\<not> sublist [10, 10, 10, 10, 10, 10]
       (strip_lines [97, 32, 10, 10, 10, 10, 123, 9, 10, 32, 10, 32, 98, 10])
   \<and> \<not> suffix [10] (strip_lines [97, 32, 10, 10, 10, 10, 123, 9, 10, 32, 10, 32, 98, 10])
   \<and> normalize [97, 32, 10, 10, 10, 10, 123, 9, 10, 32, 10, 32, 98, 10]
       = [97, 10, 10, 123, 10, 32, 98]
   \<and> normalize (normalize [97, 32, 10, 10, 10, 10, 123, 9, 10, 32, 10, 32, 98, 10])
       = normalize [97, 32, 10, 10, 10, 10, 123, 9, 10, 32, 10, 32, 98, 10]
   \<and> \<not> sublist [10, 10, 10] (normalize [97, 32, 10, 10, 10, 10, 123, 9, 10, 32, 10, 32, 98, 10])"
proof -
  let ?x = "[97, 32, 10, 10, 10, 10, 123, 9, 10, 32, 10, 32, 98, 10 :: nat]"
  have 1: "\<not> sublist [10, 10, 10, 10, 10, 10] (strip_lines ?x)"
    unfolding strip_lines_sample by (simp add: sublist_Cons_right)
  have 2: "\<not> suffix [10] (strip_lines ?x)"
    unfolding strip_lines_sample by (simp add: suffix_nl)
  have 3: "normalize ?x = [97, 10, 10, 123, 10, 32, 98]"
    by (simp add: normalize_eq strip_lines_sample)
  from normalize_fixed [of ?x] 1 2
  have "normalize (normalize ?x) = normalize ?x" and "\<not> sublist [10, 10, 10] (normalize ?x)"
    by blast+
  with 1 2 3 show ?thesis by simp
qed

end
